theory Spec2Isabelle
  imports Complex_Main "HOL-Library.Sublist" "HOL-Library.AList"
    "HOL-Library.List_Lexorder" "HOL-Library.Char_ord"
begin

section \<open>JavaScript strings, maps and sets\<close>

text \<open>
  Strings are character lists. \<open>startsWith\<close>, \<open>str_includes\<close> (the method
  \<open>includes\<close>) and \<open>indexOf\<close> are the methods of \<open>String.prototype\<close> that the
  program calls; \<open>indexOf\<close> returns \<open>None\<close> where JavaScript returns \<open>-1\<close>.
\<close>

definition startsWith :: "string \<Rightarrow> string \<Rightarrow> bool" where
  "startsWith s p = prefix p s"

fun str_includes :: "string \<Rightarrow> string \<Rightarrow> bool" where
  "str_includes [] t = (t = [])"
| "str_includes (c # s) t = (prefix t (c # s) \<or> str_includes s t)"

fun indexOf :: "string \<Rightarrow> string \<Rightarrow> nat option" where
  "indexOf [] t = (if t = [] then Some 0 else None)"
| "indexOf (c # s) t = (if prefix t (c # s) then Some 0 else map_option Suc (indexOf s t))"

text \<open>\<open>s.replace(pat, rep)\<close> with a string pattern replaces the first occurrence only.\<close>

definition replace :: "string \<Rightarrow> string \<Rightarrow> string \<Rightarrow> string" where
  "replace s pat rep =
     (case indexOf s pat of
        None \<Rightarrow> s
      | Some i \<Rightarrow> take i s @ rep @ drop (i + length pat) s)"

text \<open>\<open>s.split(c)\<close> for a one-character separator, and \<open>parts.join(sep)\<close>.\<close>

fun split :: "string \<Rightarrow> char \<Rightarrow> string list" where
  "split [] c = [[]]"
| "split (x # xs) c =
     (if x = c then [] # split xs c
      else (case split xs c of [] \<Rightarrow> [[x]] | p # ps \<Rightarrow> (x # p) # ps))"

fun join :: "string list \<Rightarrow> string \<Rightarrow> string" where
  "join [] sep = []"
| "join [p] sep = p"
| "join (p # q # ps) sep = p @ sep @ join (q # ps) sep"

text \<open>\<open>String(n)\<close> for an integer, and \<open>s.padStart(2, "0")\<close>.\<close>

definition digit_char :: "nat \<Rightarrow> char" where
  "digit_char n = ''0123456789'' ! (n mod 10)"

fun String_nat :: "nat \<Rightarrow> string" where
  "String_nat n =
     (if n < 10 then [digit_char n] else String_nat (n div 10) @ [digit_char (n mod 10)])"

declare String_nat.simps [simp del]

definition String_int :: "int \<Rightarrow> string" where
  "String_int i = (if i < 0 then CHR ''-'' # String_nat (nat (- i)) else String_nat (nat i))"

definition padStart2 :: "string \<Rightarrow> string" where
  "padStart2 s = replicate (2 - length s) CHR ''0'' @ s"

text \<open>
  A \<open>Map\<close> iterates in insertion order and \<open>set\<close> on a present key keeps the key's
  place: an association list updated in place or extended at the end. A \<open>Set\<close> is the
  list of its members in insertion order.
\<close>

type_synonym ('k, 'v) Map = "('k \<times> 'v) list"

definition Map_get :: "('k, 'v) Map \<Rightarrow> 'k \<Rightarrow> 'v option" where
  "Map_get m k = map_of m k"

definition Map_has :: "('k, 'v) Map \<Rightarrow> 'k \<Rightarrow> bool" where
  "Map_has m k = (map_of m k \<noteq> None)"

definition Map_set :: "('k, 'v) Map \<Rightarrow> 'k \<Rightarrow> 'v \<Rightarrow> ('k, 'v) Map" where
  "Map_set m k v = AList.update k v m"

definition Map_keys :: "('k, 'v) Map \<Rightarrow> 'k list" where
  "Map_keys m = map fst m"

definition Set_add :: "'a list \<Rightarrow> 'a \<Rightarrow> 'a list" where
  "Set_add s x = (if x \<in> set s then s else s @ [x])"

section \<open>The Date object and the host\<close>

text \<open>
  A \<open>Date\<close> is its time value, the milliseconds since the epoch, or \<open>None\<close> for an
  Invalid Date; a number that may be \<open>NaN\<close> is an \<open>int option\<close> likewise. The host
  gives the local time offset at each instant, the successive readings of the system
  clock, and the parser behind \<open>new Date(string)\<close>; they are parameters of the model,
  collected in a \<open>world\<close>. A function that reads the clock takes the number of readings
  made so far and returns the new number with its result.
\<close>

type_synonym Date = "int option"

record world =
  tzOffset :: "int \<Rightarrow> int"
  clock :: "nat \<Rightarrow> int"
  parseDate :: "string \<Rightarrow> int option"

definition msPerDay :: int where
  "msPerDay = 24 * 60 * 60 * 1000"

definition maxTime :: int where
  "maxTime = 8640000000000000"

definition new_Date :: "int \<Rightarrow> Date" where
  "new_Date t = (if - maxTime \<le> t \<and> t \<le> maxTime then Some t else None)"

text \<open>\<open>a < b\<close> on two dates compares the time values; it is false when one is invalid.\<close>

definition Date_less :: "Date \<Rightarrow> Date \<Rightarrow> bool" where
  "Date_less a b = (case (a, b) of (Some x, Some y) \<Rightarrow> x < y | _ \<Rightarrow> False)"

text \<open>\<open>new Date(d.getTime() - ms)\<close>.\<close>

definition Date_minus :: "Date \<Rightarrow> int \<Rightarrow> Date" where
  "Date_minus d ms = (case d of None \<Rightarrow> None | Some t \<Rightarrow> new_Date (t - ms))"

text \<open>\<open>Math.round\<close> rounds to the nearest integer, a half upwards.\<close>

definition Math_round :: "rat \<Rightarrow> int" where
  "Math_round x = \<lfloor>x + 1 / 2\<rfloor>"

definition Date_now :: "world \<Rightarrow> nat \<Rightarrow> int \<times> nat" where
  "Date_now w n = (clock w n, Suc n)"

definition localDay :: "world \<Rightarrow> int \<Rightarrow> int" where
  "localDay w t = (t + tzOffset w t) div msPerDay"

text \<open>The civil date (year, month 1..12, day) of a day number counted from 1970-01-01.\<close>

definition civil_from_days :: "int \<Rightarrow> int \<times> int \<times> int" where
  "civil_from_days z0 =
     (let z = z0 + 719468;
          era = z div 146097;
          doe = z mod 146097;
          yoe = (doe - doe div 1460 + doe div 36524 - doe div 146096) div 365;
          doy = doe - (365 * yoe + yoe div 4 - yoe div 100);
          mp = (5 * doy + 2) div 153;
          d = doy - (153 * mp + 2) div 5 + 1;
          m = (if mp < 10 then mp + 3 else mp - 9);
          y = yoe + era * 400
      in (if m \<le> 2 then y + 1 else y, m, d))"

definition days_from_civil :: "int \<Rightarrow> int \<Rightarrow> int \<Rightarrow> int" where
  "days_from_civil y0 m d =
     (let y = (if m \<le> 2 then y0 - 1 else y0);
          era = y div 400;
          yoe = y mod 400;
          doy = (153 * (if m > 2 then m - 3 else m + 9) + 2) div 5 + d - 1;
          doe = yoe * 365 + yoe div 4 - yoe div 100 + doy
      in era * 146097 + doe - 719468)"

definition getFullYear :: "world \<Rightarrow> Date \<Rightarrow> int option" where
  "getFullYear w d = map_option (\<lambda>t. fst (civil_from_days (localDay w t))) d"

definition getMonth :: "world \<Rightarrow> Date \<Rightarrow> int option" where
  "getMonth w d = map_option (\<lambda>t. fst (snd (civil_from_days (localDay w t))) - 1) d"

definition getDate :: "world \<Rightarrow> Date \<Rightarrow> int option" where
  "getDate w d = map_option (\<lambda>t. snd (snd (civil_from_days (localDay w t)))) d"

definition getDay :: "world \<Rightarrow> Date \<Rightarrow> int option" where
  "getDay w d = map_option (\<lambda>t. (localDay w t + 4) mod 7) d"

definition String_num :: "int option \<Rightarrow> string" where
  "String_num x = (case x of None \<Rightarrow> ''NaN'' | Some i \<Rightarrow> String_int i)"

text \<open>
  The date-only form \<open>YYYY-MM-DD\<close> of \<open>new Date(string)\<close>, read as midnight UTC. It is
  the parser of the worlds the examples run in.
\<close>

definition is_digit :: "char \<Rightarrow> bool" where
  "is_digit c = (c \<in> set ''0123456789'')"

definition digit_val :: "char \<Rightarrow> int" where
  "digit_val c = int (of_char c) - 48"

definition daysInMonth :: "int \<Rightarrow> int \<Rightarrow> int" where
  "daysInMonth y m =
     (if m = 2 then (if y mod 4 = 0 \<and> (y mod 100 \<noteq> 0 \<or> y mod 400 = 0) then 29 else 28)
      else if m \<in> {4, 6, 9, 11} then 30 else 31)"

definition isoDate :: "string \<Rightarrow> int option" where
  "isoDate s =
     (case s of
        [y1, y2, y3, y4, s1, m1, m2, s2, d1, d2] \<Rightarrow>
          (let y = 1000 * digit_val y1 + 100 * digit_val y2 + 10 * digit_val y3 + digit_val y4;
               m = 10 * digit_val m1 + digit_val m2;
               d = 10 * digit_val d1 + digit_val d2
           in if list_all is_digit [y1, y2, y3, y4, m1, m2, d1, d2] \<and> s1 = CHR ''-'' \<and> s2 = CHR ''-''
                 \<and> 1 \<le> m \<and> m \<le> 12 \<and> 1 \<le> d \<and> d \<le> daysInMonth y m
              then Some (days_from_civil y m d * msPerDay) else None)
      | _ \<Rightarrow> None)"

definition Date_of_string :: "world \<Rightarrow> string \<Rightarrow> Date" where
  "Date_of_string w s = parseDate w s"

section \<open>formatDateKey (collector.ts and stats.ts)\<close>

definition formatDateKey :: "world \<Rightarrow> Date \<Rightarrow> string" where
  "formatDateKey w date =
     (let year = getFullYear w date;
          month = padStart2 (String_num (map_option (\<lambda>m. m + 1) (getMonth w date)));
          day = padStart2 (String_num (getDate w date))
      in String_num year @ ''-'' @ month @ ''-'' @ day)"

section \<open>The usage collector (collector.ts)\<close>

text \<open>
  Numbers are JavaScript doubles. The token, thread and message counts are unbounded
  integers here, which is what the doubles hold as long as the sums stay below
  \<open>2^53\<close>; the credits and the percentages are rationals, without the rounding of the
  doubles. An optional field, and a field the program reads with \<open>|| 0\<close>, is an option.
  A thread file that parses has the shape of the interface \<open>AmpThread\<close>; the fields
  the program never reads are left out.
\<close>

record AmpThreadUsage =
  model :: "string option"
  inputTokens :: "int option"
  outputTokens :: "int option"
  cacheReadInputTokens :: "int option"
  credits :: "rat option"

record AmpFile =
  uri :: string

record AmpFileMentions =
  files :: "AmpFile list option"

datatype Role = User | Assistant

record AmpMessage =
  role :: Role
  usage :: "AmpThreadUsage option"
  fileMentions :: "AmpFileMentions option"

record AmpThread =
  created :: int
  messages :: "AmpMessage list"

record AmpUsageSummary =
  totalInputTokens :: int
  totalOutputTokens :: int
  totalCacheReadTokens :: int
  totalTokens :: int
  totalCredits :: rat
  modelTokenTotals :: "(string, int) Map"
  modelCreditTotals :: "(string, rat) Map"
  firstTimestamp :: "int option"
  dailyActivity :: "(string, int) Map"
  totalMessages :: int
  totalSessions :: int
  projects :: "string list"

definition projectIndicators :: "string list" where
  "projectIndicators = [''/src/'', ''/lib/'', ''/app/'', ''/components/'', ''/pages/'']"

text \<open>The loop over the indicators: the first indicator of the list that occurs decides.\<close>

fun find_indicator :: "string \<Rightarrow> string list \<Rightarrow> string option" where
  "find_indicator path [] = None"
| "find_indicator path (indicator # rest) =
     (case indexOf path indicator of
        Some idx \<Rightarrow> Some (take idx path)
      | None \<Rightarrow> find_indicator path rest)"

definition extractProjectPath :: "string \<Rightarrow> string option" where
  "extractProjectPath u =
     (if \<not> startsWith u ''file://'' then None
      else let path = replace u ''file://'' [] in
        (case find_indicator path projectIndicators of
           Some p \<Rightarrow> Some p
         | None \<Rightarrow>
             (let parts = split path CHR ''/''
              in if length parts \<ge> 4 then Some (join (butlast parts) ''/'') else None)))"

definition or0 :: "'a::zero option \<Rightarrow> 'a" where
  "or0 x = (case x of None \<Rightarrow> 0 | Some v \<Rightarrow> v)"

text \<open>The body of the loop over the file mentions of a user message.\<close>

definition collect_file :: "string list \<Rightarrow> AmpFile \<Rightarrow> string list" where
  "collect_file projs file =
     (case extractProjectPath (uri file) of
        None \<Rightarrow> projs
      | Some projectPath \<Rightarrow> if projectPath \<noteq> [] then Set_add projs projectPath else projs)"

text \<open>The body of the loop over the messages of a thread.\<close>

definition collect_message :: "AmpUsageSummary \<Rightarrow> AmpMessage \<Rightarrow> AmpUsageSummary" where
  "collect_message s message =
     (let s1 =
        (if role message = User then
           (let s0 = s\<lparr>totalMessages := totalMessages s + 1\<rparr> in
            (case fileMentions message of
               None \<Rightarrow> s0
             | Some fm \<Rightarrow>
                 (case files fm of
                    None \<Rightarrow> s0
                  | Some fs \<Rightarrow> s0\<lparr>projects := foldl collect_file (projects s0) fs\<rparr>)))
         else s)
      in
        (case usage message of
           Some u \<Rightarrow>
             if role message = Assistant then
               (let model = (case model u of None \<Rightarrow> ''unknown'' | Some m \<Rightarrow> if m = [] then ''unknown'' else m);
                    input = or0 (inputTokens u);
                    output = or0 (outputTokens u);
                    cacheRead = or0 (cacheReadInputTokens u);
                    credits = or0 (credits u);
                    entryTotal = input + output + cacheRead;
                    s2 = s1\<lparr>totalInputTokens := totalInputTokens s1 + input,
                            totalOutputTokens := totalOutputTokens s1 + output,
                            totalCacheReadTokens := totalCacheReadTokens s1 + cacheRead,
                            totalTokens := totalTokens s1 + entryTotal,
                            totalCredits := totalCredits s1 + credits\<rparr>
                in if model \<noteq> [] \<and> model \<noteq> ''unknown'' then
                     s2\<lparr>modelTokenTotals :=
                          Map_set (modelTokenTotals s2) model
                            (or0 (Map_get (modelTokenTotals s2) model) + entryTotal),
                        modelCreditTotals :=
                          Map_set (modelCreditTotals s2) model
                            (or0 (Map_get (modelCreditTotals s2) model) + credits)\<rparr>
                   else s2)
             else s1
         | None \<Rightarrow> s1))"

text \<open>
  The body of the loop over the thread files. A file that cannot be read or parsed is
  \<open>None\<close>: the inner \<open>catch\<close> skips it.
\<close>

definition collect_thread :: "world \<Rightarrow> int \<Rightarrow> AmpUsageSummary \<Rightarrow> AmpThread option \<Rightarrow> AmpUsageSummary" where
  "collect_thread w year s file =
     (case file of
        None \<Rightarrow> s
      | Some thread \<Rightarrow>
          (let threadDate = new_Date (created thread) in
           if getFullYear w threadDate \<noteq> Some year then s
           else
             (let s1 = s\<lparr>totalSessions := totalSessions s + 1\<rparr>;
                  s2 = (if firstTimestamp s1 = None \<or> Date_less threadDate (firstTimestamp s1)
                        then s1\<lparr>firstTimestamp := threadDate\<rparr> else s1);
                  dateKey = formatDateKey w threadDate;
                  s3 = s2\<lparr>dailyActivity :=
                            Map_set (dailyActivity s2) dateKey
                              (or0 (Map_get (dailyActivity s2) dateKey) + 1)\<rparr>
              in foldl collect_message s3 (messages thread))))"

definition emptySummary :: AmpUsageSummary where
  "emptySummary =
     \<lparr>totalInputTokens = 0, totalOutputTokens = 0, totalCacheReadTokens = 0, totalTokens = 0,
      totalCredits = 0, modelTokenTotals = [], modelCreditTotals = [], firstTimestamp = None,
      dailyActivity = [], totalMessages = 0, totalSessions = 0, projects = []\<rparr>"

definition collectAmpUsageSummary :: "world \<Rightarrow> AmpThread option list \<Rightarrow> int \<Rightarrow> AmpUsageSummary" where
  "collectAmpUsageSummary w threadFiles year = foldl (collect_thread w year) emptySummary threadFiles"

section \<open>Provider resolution (stats.ts, resolveProviderId)\<close>

definition resolveProviderId :: "string \<Rightarrow> string" where
  "resolveProviderId modelId =
     (if startsWith modelId ''claude'' then ''anthropic''
      else if startsWith modelId ''gpt'' \<or> startsWith modelId ''o1'' \<or> startsWith modelId ''o3''
        then ''openai''
      else if startsWith modelId ''gemini'' then ''google''
      else if str_includes modelId ''mistral'' \<or> str_includes modelId ''mixtral'' then ''mistral''
      else if str_includes modelId ''llama'' then ''meta''
      else if str_includes modelId ''deepseek'' then ''deepseek''
      else ''unknown'')"

section \<open>The stats calculator (stats.ts)\<close>

subsection \<open>Streaks\<close>

text \<open>
  The loop of \<open>calculateStreaks\<close> over the sorted dates, from index \<open>i\<close>, on the
  variables \<open>maxStreak\<close>, \<open>tempStreak\<close>, \<open>tempStreakStart\<close>, \<open>maxStreakStart\<close> and
  \<open>maxStreakEnd\<close>.
\<close>

definition diffDays :: "world \<Rightarrow> string \<Rightarrow> string \<Rightarrow> int option" where
  "diffDays w prevKey currKey =
     (let prevDate = Date_of_string w prevKey;
          currDate = Date_of_string w currKey
      in (case (currDate, prevDate) of
            (Some c, Some p) \<Rightarrow> Some (Math_round (of_int (c - p) / of_int msPerDay))
          | _ \<Rightarrow> None))"

function streak_loop :: "world \<Rightarrow> string list \<Rightarrow> nat \<Rightarrow> nat \<times> nat \<times> nat \<times> nat \<times> nat
    \<Rightarrow> nat \<times> nat \<times> nat \<times> nat \<times> nat" where
  "streak_loop w activeDates i (maxStreak, tempStreak, tempStreakStart, maxStreakStart, maxStreakEnd) =
     (if i < length activeDates then
        (if diffDays w (activeDates ! (i - 1)) (activeDates ! i) = Some 1 then
           (if tempStreak + 1 > maxStreak
            then streak_loop w activeDates (i + 1)
                   (tempStreak + 1, tempStreak + 1, tempStreakStart, tempStreakStart, i)
            else streak_loop w activeDates (i + 1)
                   (maxStreak, tempStreak + 1, tempStreakStart, maxStreakStart, maxStreakEnd))
         else streak_loop w activeDates (i + 1) (maxStreak, 1, i, maxStreakStart, maxStreakEnd))
      else (maxStreak, tempStreak, tempStreakStart, maxStreakStart, maxStreakEnd))"
  by pat_completeness auto
termination
  by (relation "measure (\<lambda>(w, activeDates, i, st). length activeDates - i)") auto

declare streak_loop.simps [simp del]

text \<open>
  \<open>countStreakBackwards\<close>: the loop has no bound of its own, so the model is a partial
  function and \<open>None\<close> stands for a run that does not return.
\<close>

partial_function (option) countStreakBackwards_loop ::
    "world \<Rightarrow> (string, int) Map \<Rightarrow> Date \<Rightarrow> nat \<Rightarrow> nat option" where
  "countStreakBackwards_loop w daily checkDate streak =
     (let checkDate1 = Date_minus checkDate msPerDay
      in if Map_has daily (formatDateKey w checkDate1)
         then countStreakBackwards_loop w daily checkDate1 (streak + 1)
         else Some streak)"

declare countStreakBackwards_loop.simps [code]

definition countStreakBackwards :: "world \<Rightarrow> (string, int) Map \<Rightarrow> Date \<Rightarrow> nat option" where
  "countStreakBackwards w daily startDate = countStreakBackwards_loop w daily startDate 1"

record Streaks =
  maxStreak :: nat
  currentStreak :: nat
  maxStreakDays :: "string list"

definition activeDatesOf :: "(string, int) Map \<Rightarrow> int \<Rightarrow> string list" where
  "activeDatesOf daily year =
     sort (filter (\<lambda>date. startsWith date (String_int year)) (Map_keys daily))"

definition calculateStreaks ::
    "world \<Rightarrow> (string, int) Map \<Rightarrow> int \<Rightarrow> nat \<Rightarrow> (Streaks \<times> nat) option" where
  "calculateStreaks w daily year n =
     (let activeDates = activeDatesOf daily year in
      if length activeDates = 0
      then Some (\<lparr>maxStreak = 0, currentStreak = 0, maxStreakDays = []\<rparr>, n)
      else
        (let (maxStreak, tempStreak, tempStreakStart, maxStreakStart, maxStreakEnd) =
               streak_loop w activeDates 1 (1, 1, 0, 0, 0);
             maxStreakDays =
               foldl (\<lambda>s i. Set_add s (activeDates ! i)) [] [maxStreakStart ..< maxStreakEnd + 1];
             (t1, n1) = Date_now w n;
             today = formatDateKey w (new_Date t1);
             (t2, n2) = Date_now w n1;
             yesterday = formatDateKey w (new_Date (t2 - msPerDay))
         in if Map_has daily today then
              (let (t3, n3) = Date_now w n2 in
               map_option
                 (\<lambda>c. (\<lparr>maxStreak = maxStreak, currentStreak = c, maxStreakDays = maxStreakDays\<rparr>, n3))
                 (countStreakBackwards w daily (new_Date t3)))
            else if Map_has daily yesterday then
              (let (t3, n3) = Date_now w n2 in
               map_option
                 (\<lambda>c. (\<lparr>maxStreak = maxStreak, currentStreak = c, maxStreakDays = maxStreakDays\<rparr>, n3))
                 (countStreakBackwards w daily (new_Date (t3 - msPerDay))))
            else Some (\<lparr>maxStreak = maxStreak, currentStreak = 0, maxStreakDays = maxStreakDays\<rparr>, n2)))"

subsection \<open>Most active day and weekdays\<close>

text \<open>The most active day, without its formatted date.\<close>

record MostActiveDay =
  date :: string
  count' :: int

definition findMostActiveDay :: "(string, int) Map \<Rightarrow> MostActiveDay option" where
  "findMostActiveDay daily =
     (if length daily = 0 then None
      else
        (let (maxDate, maxCount) =
               foldl (\<lambda>(maxDate, maxCount) (d, c). if c > maxCount then (d, c) else (maxDate, maxCount))
                 ([], 0) daily
         in if maxDate = [] then None else Some \<lparr>date = maxDate, count' = maxCount\<rparr>))"

record AmpWeekdayActivity =
  counts :: "int list"
  mostActiveDay' :: nat
  maxCount :: int

definition buildWeekdayActivity :: "int list \<Rightarrow> AmpWeekdayActivity" where
  "buildWeekdayActivity cs =
     (let (mostActive, maxC) =
            foldl (\<lambda>(mostActive, maxC) i. if cs ! i > maxC then (i, cs ! i) else (mostActive, maxC))
              (0, 0) [0 ..< 7]
      in \<lparr>counts = cs, mostActiveDay' = mostActive, maxCount = maxC\<rparr>)"

text \<open>
  The loop that fills \<open>weekdayCounts\<close>: a key that is no date has the weekday \<open>NaN\<close>,
  and the assignment then leaves the seven slots as they are.
\<close>

definition weekdayCountsOf :: "world \<Rightarrow> (string, int) Map \<Rightarrow> int list" where
  "weekdayCountsOf w daily =
     foldl (\<lambda>weekdayCounts (entryDate, messageCount).
              (case getDay w (Date_of_string w entryDate) of
                 None \<Rightarrow> weekdayCounts
               | Some weekday \<Rightarrow>
                   weekdayCounts[nat weekday := weekdayCounts ! nat weekday + messageCount]))
       [0, 0, 0, 0, 0, 0, 0] daily"

subsection \<open>Models and providers\<close>

text \<open>
  \<open>AmpModelStats\<close> has the fields of \<open>AmpProviderStats\<close> and two more, so it extends
  that record. \<open>id'\<close> and \<open>credits'\<close> carry a prime because \<open>id\<close> and \<open>credits\<close>
  are taken. The field \<open>name\<close> of both, a display string, is left out.
\<close>

record AmpProviderStats =
  id' :: string
  count :: int
  percentage :: rat

record AmpModelStats = AmpProviderStats +
  providerId :: string
  credits' :: rat

definition percentageOf :: "int \<Rightarrow> int \<Rightarrow> rat" where
  "percentageOf tokens totalTok = (if totalTok > 0 then (of_int tokens / of_int totalTok) * 100 else 0)"

text \<open>
  The loop over \<open>modelTokenTotals\<close>, on the array \<open>modelStats\<close> and the map
  \<open>providerCounts\<close>.
\<close>

definition model_step ::
    "AmpUsageSummary \<Rightarrow> AmpModelStats list \<times> (string, int) Map \<Rightarrow> string \<times> int
      \<Rightarrow> AmpModelStats list \<times> (string, int) Map" where
  "model_step s st entry =
     (let (modelStats, providerCounts) = st;
          (modelId, tokens) = entry
      in if tokens \<le> 0 then (modelStats, providerCounts)
         else
           (let provider = resolveProviderId modelId;
                cr = or0 (Map_get (modelCreditTotals s) modelId)
            in (modelStats @
                  [\<lparr>id' = modelId, count = tokens,
                    percentage = percentageOf tokens (totalTokens s),
                    providerId = provider, credits' = cr\<rparr>],
                Map_set providerCounts provider (or0 (Map_get providerCounts provider) + tokens))))"

text \<open>
  \<open>xs.sort((a, b) => key(b) - key(a))\<close>: \<open>Array.prototype.sort\<close> is stable, so this is
  a stable sort on the negated key.
\<close>

definition sort_desc :: "('a \<Rightarrow> int) \<Rightarrow> 'a list \<Rightarrow> 'a list" where
  "sort_desc key xs = sort_key (\<lambda>x. - key x) xs"

definition topModelsOf :: "AmpUsageSummary \<Rightarrow> AmpModelStats list" where
  "topModelsOf s =
     take 3 (sort_desc count (fst (foldl (model_step s) ([], []) (modelTokenTotals s))))"

definition topProvidersOf :: "AmpUsageSummary \<Rightarrow> AmpProviderStats list" where
  "topProvidersOf s =
     map (\<lambda>(p, c). \<lparr>id' = p, count = c, percentage = percentageOf c (totalTokens s)\<rparr>)
       (take 3 (sort_desc snd (snd (foldl (model_step s) ([], []) (modelTokenTotals s)))))"

subsection \<open>calculateAmpStats\<close>

text \<open>
  The result has the three fields of \<open>calculateStreaks\<close> and extends that record; a
  field whose name the summary has too carries a prime.
\<close>

record AmpCodeStats = Streaks +
  year' :: int
  firstSessionDate :: Date
  daysSinceFirstSession :: "int option"
  totalSessions' :: int
  totalMessages' :: int
  totalProjects :: nat
  totalInputTokens' :: int
  totalOutputTokens' :: int
  totalTokens' :: int
  totalCacheReadTokens' :: int
  cacheHitRate :: rat
  totalCredits' :: rat
  hasCredits :: bool
  topModels :: "AmpModelStats list"
  topProviders :: "AmpProviderStats list"
  dailyActivity' :: "(string, int) Map"
  mostActiveDay :: "MostActiveDay option"
  weekdayActivity :: AmpWeekdayActivity

text \<open>
  The part of \<open>calculateAmpStats\<close> after the collector has returned. The clock is read
  by \<open>calculateStreaks\<close> first, then for \<open>firstSessionDate\<close> when the summary has no
  first timestamp, then for \<open>daysSinceFirstSession\<close>. The display names and the
  formatted date are strings for the image and are left out.
\<close>

definition calculateAmpStats_from :: "world \<Rightarrow> AmpUsageSummary \<Rightarrow> int \<Rightarrow> AmpCodeStats option" where
  "calculateAmpStats_from w usageSummary year =
     (let daily = dailyActivity usageSummary;
          weekdayCounts = weekdayCountsOf w daily;
          topM = topModelsOf usageSummary;
          topP = topProvidersOf usageSummary
      in (case calculateStreaks w daily year 0 of
            None \<Rightarrow> None
          | Some (streaks, n1) \<Rightarrow>
              (let mostActive = findMostActiveDay daily;
                   weekdayAct = buildWeekdayActivity weekdayCounts;
                   hitRate =
                     (if totalCacheReadTokens usageSummary > 0
                      then (of_int (totalCacheReadTokens usageSummary)
                              / of_int (totalCacheReadTokens usageSummary + totalInputTokens usageSummary)) * 100
                      else 0);
                   (first, n2) =
                     (case firstTimestamp usageSummary of
                        Some t \<Rightarrow> (Some t, n1)
                      | None \<Rightarrow> (let (t, m) = Date_now w n1 in (new_Date t, m)));
                   (now, n3) = Date_now w n2;
                   days = map_option (\<lambda>t. (now - t) div msPerDay) first
               in Some
                    \<lparr>maxStreak = maxStreak streaks,
                     currentStreak = currentStreak streaks,
                     maxStreakDays = maxStreakDays streaks,
                     year' = year,
                     firstSessionDate = first,
                     daysSinceFirstSession = days,
                     totalSessions' = totalSessions usageSummary,
                     totalMessages' = totalMessages usageSummary,
                     totalProjects = length (projects usageSummary),
                     totalInputTokens' = totalInputTokens usageSummary,
                     totalOutputTokens' = totalOutputTokens usageSummary,
                     totalTokens' = totalTokens usageSummary,
                     totalCacheReadTokens' = totalCacheReadTokens usageSummary,
                     cacheHitRate = hitRate,
                     totalCredits' = totalCredits usageSummary,
                     hasCredits = (totalCredits usageSummary > 0),
                     topModels = topM,
                     topProviders = topP,
                     dailyActivity' = daily,
                     mostActiveDay = mostActive,
                     weekdayActivity = weekdayAct\<rparr>)))"

definition calculateAmpStats :: "world \<Rightarrow> AmpThread option list \<Rightarrow> int \<Rightarrow> AmpCodeStats option" where
  "calculateAmpStats w threadFiles year =
     calculateAmpStats_from w (collectAmpUsageSummary w threadFiles year) year"

section \<open>Specification-level notions\<close>

text \<open>
  The words of the specification, stated without the program's string functions:
  a prefix and a contiguous occurrence, and a list of rules of which the first that
  applies decides.
\<close>

definition starts_with :: "string \<Rightarrow> string \<Rightarrow> bool" where
  "starts_with s p = (\<exists>r. s = p @ r)"

definition contains :: "string \<Rightarrow> string \<Rightarrow> bool" where
  "contains s t = (\<exists>a b. s = a @ t @ b)"

definition provider_rules :: "((string \<Rightarrow> bool) \<times> string) list" where
  "provider_rules =
     [(\<lambda>m. starts_with m ''claude'', ''anthropic''),
      (\<lambda>m. starts_with m ''gpt'' \<or> starts_with m ''o1'' \<or> starts_with m ''o3'', ''openai''),
      (\<lambda>m. starts_with m ''gemini'', ''google''),
      (\<lambda>m. contains m ''mistral'' \<or> contains m ''mixtral'', ''mistral''),
      (\<lambda>m. contains m ''llama'', ''meta''),
      (\<lambda>m. contains m ''deepseek'', ''deepseek'')]"

fun first_rule :: "((string \<Rightarrow> bool) \<times> string) list \<Rightarrow> string \<Rightarrow> string" where
  "first_rule [] m = ''unknown''"
| "first_rule ((applies, provider) # rules) m = (if applies m then provider else first_rule rules m)"

text \<open>
  A host on UTC whose clock reads \<open>now\<close> at every reading and whose parser is
  \<open>isoDate\<close>: the world the examples run in.
\<close>

definition utcWorld :: "int \<Rightarrow> world" where
  "utcWorld now = \<lparr>tzOffset = (\<lambda>_. 0), clock = (\<lambda>_. now), parseDate = isoDate\<rparr>"

text \<open>
  \<open>before_first path m p\<close>: \<open>p\<close> is what stands before the leftmost occurrence of
  \<open>m\<close> in \<open>path\<close>. \<open>slashes\<close> counts the separators of a path, one less than
  its segments.
\<close>

definition before_first :: "string \<Rightarrow> string \<Rightarrow> string \<Rightarrow> bool" where
  "before_first path m p =
     ((\<exists>r. path = p @ m @ r) \<and> (\<forall>p' r'. path = p' @ m @ r' \<longrightarrow> length p \<le> length p'))"

definition slashes :: "string \<Rightarrow> nat" where
  "slashes path = length (filter (\<lambda>c. c = CHR ''/'') path)"

text \<open>
  The derivation as the specification words it, for comparison with the program: the
  marker whose occurrence is leftmost in the path decides, whichever marker it is.
\<close>

fun leftmost_marker :: "string \<Rightarrow> string list \<Rightarrow> nat option" where
  "leftmost_marker [] markers = None"
| "leftmost_marker (c # s) markers =
     (if list_ex (\<lambda>m. prefix m (c # s)) markers then Some 0
      else map_option Suc (leftmost_marker s markers))"

definition extractProjectPath_leftmost :: "string \<Rightarrow> string option" where
  "extractProjectPath_leftmost u =
     (if \<not> startsWith u ''file://'' then None
      else let path = drop 7 u in
        (case leftmost_marker path projectIndicators of
           Some idx \<Rightarrow> Some (take idx path)
         | None \<Rightarrow>
             (let parts = split path CHR ''/''
              in if length parts \<ge> 4 then Some (join (butlast parts) ''/'') else None)))"

text \<open>
  The threads the collector retains for a year, the usage blocks of their assistant
  messages, and what one usage block counts for.
\<close>

definition in_year :: "world \<Rightarrow> int \<Rightarrow> AmpThread \<Rightarrow> bool" where
  "in_year w year thread = (getFullYear w (new_Date (created thread)) = Some year)"

definition retained :: "world \<Rightarrow> int \<Rightarrow> AmpThread option list \<Rightarrow> AmpThread list" where
  "retained w year threadFiles =
     concat (map (\<lambda>f. case f of None \<Rightarrow> [] | Some t \<Rightarrow> if in_year w year t then [t] else []) threadFiles)"



definition entryTotal :: "AmpThreadUsage \<Rightarrow> int" where
  "entryTotal u = or0 (inputTokens u) + or0 (outputTokens u) + or0 (cacheReadInputTokens u)"



definition thread_list :: "world \<Rightarrow> int \<Rightarrow> AmpThread option \<Rightarrow> AmpThread list" where
  "thread_list w year f = (case f of None \<Rightarrow> [] | Some t \<Rightarrow> if in_year w year t then [t] else [])"

text \<open>
  A small store: a thread of 2025 with a user and an assistant message, an unreadable
  file, and a thread of 2024.
\<close>

definition exampleThreads :: "AmpThread option list" where
  "exampleThreads =
     [Some \<lparr>created = 1735732800000,
            messages =
              [\<lparr>role = User, usage = None,
                fileMentions = Some \<lparr>files = Some [\<lparr>uri = ''file:///home/u/proj/src/a.ts''\<rparr>]\<rparr>\<rparr>,
               \<lparr>role = Assistant,
                usage = Some \<lparr>model = Some ''gpt-4o'', inputTokens = Some 10, outputTokens = Some 5,
                              cacheReadInputTokens = None, credits = Some 2\<rparr>,
                fileMentions = None\<rparr>]\<rparr>,
      None,
      Some \<lparr>created = 1704110400000,
            messages =
              [\<lparr>role = Assistant,
                usage = Some \<lparr>model = Some ''claude-3-opus-20240229'', inputTokens = Some 100,
                              outputTokens = Some 50, cacheReadInputTokens = Some 7, credits = Some 1\<rparr>,
                fileMentions = None\<rparr>]\<rparr>]"

text \<open>
  Streaks over the sorted dates \<open>ds\<close>: the date at index \<open>i\<close> is adjacent to the one
  before it when the program's day difference of the two is exactly 1, and the indices
  \<open>s..e\<close> are a run when every date of the segment after the first is adjacent to its
  predecessor. \<open>streak_inv\<close> is the invariant of the loop before it reads index \<open>i\<close>.
\<close>

definition adjacent :: "world \<Rightarrow> string list \<Rightarrow> nat \<Rightarrow> bool" where
  "adjacent w ds i = (diffDays w (ds ! (i - 1)) (ds ! i) = Some 1)"

definition is_run :: "world \<Rightarrow> string list \<Rightarrow> nat \<Rightarrow> nat \<Rightarrow> bool" where
  "is_run w ds s e = (s \<le> e \<and> e < length ds \<and> (\<forall>i. s < i \<and> i \<le> e \<longrightarrow> adjacent w ds i))"

definition streak_inv :: "world \<Rightarrow> string list \<Rightarrow> nat \<Rightarrow> nat \<times> nat \<times> nat \<times> nat \<times> nat \<Rightarrow> bool" where
  "streak_inv w ds i st =
     (case st of (mx, tmp, ts, ms, me) \<Rightarrow>
        ts < i \<and> tmp + ts = i \<and> is_run w ds ts (i - 1) \<and> (ts = 0 \<or> \<not> adjacent w ds ts)
        \<and> is_run w ds ms me \<and> me < i \<and> mx + ms = me + 1
        \<and> (\<forall>s e. is_run w ds s e \<and> e < i \<longrightarrow> e + 1 \<le> mx + s \<and> (e + 1 = mx + s \<longrightarrow> me \<le> e)))"

text \<open>The day number of a date key \<open>YYYY-MM-DD\<close>, counted from 1970-01-01.\<close>

definition dayOfKey :: "string \<Rightarrow> int option" where
  "dayOfKey s = map_option (\<lambda>t. t div msPerDay) (isoDate s)"

text \<open>The year a date key is written with: the value of its first four digits.\<close>

definition keyYear :: "string \<Rightarrow> int" where
  "keyYear k = 1000 * digit_val (k ! 0) + 100 * digit_val (k ! 1) + 10 * digit_val (k ! 2) + digit_val (k ! 3)"

text \<open>The daily activity of the specification's scenario.\<close>

definition jan2025 :: "(string, int) Map" where
  "jan2025 = [(''2025-01-01'', 1), (''2025-01-02'', 1), (''2025-01-03'', 1), (''2025-01-05'', 1)]"













definition oneDay :: AmpUsageSummary where
  "oneDay = emptySummary\<lparr>dailyActivity := [(''2025-01-01'', 1)],
              firstTimestamp := Some 1735732800000, totalSessions := 1\<rparr>"

section \<open>Strings: what the functions compute\<close>

lemma startsWith_iff: "startsWith s p \<longleftrightarrow> starts_with s p"
  by (auto simp: startsWith_def starts_with_def prefix_def)

lemma str_includes_sublist: "str_includes s t \<longleftrightarrow> sublist t s"
  by (induction s) (simp_all add: sublist_Cons_right)

lemma str_includes_iff: "str_includes s t \<longleftrightarrow> contains s t"
  by (auto simp: str_includes_sublist sublist_def contains_def)

section \<open>Provider resolution\<close>

text \<open>
  Claim C8. For every model id, \<open>resolveProviderId\<close> is the first rule that applies of:
  starts with claude, anthropic; starts with gpt, o1 or o3, openai; starts with gemini,
  google; contains mistral or mixtral, mistral; contains llama, meta; contains deepseek,
  deepseek; and unknown when none applies. So gpt-4o resolves to openai and mystery-llm
  to unknown.
\<close>

theorem resolveProviderId_rules:
  "resolveProviderId modelId = first_rule provider_rules modelId
   \<and> resolveProviderId ''gpt-4o'' = ''openai''
   \<and> resolveProviderId ''mystery-llm'' = ''unknown''"
proof -
  have "resolveProviderId modelId = first_rule provider_rules modelId"
    by (simp add: resolveProviderId_def provider_rules_def startsWith_iff str_includes_iff)
  moreover have "resolveProviderId ''gpt-4o'' = ''openai''"
    by (simp add: resolveProviderId_def startsWith_def)
  moreover have "resolveProviderId ''mystery-llm'' = ''unknown''"
    by (simp add: resolveProviderId_def startsWith_def)
  ultimately show ?thesis by simp
qed

section \<open>Cache hit rate\<close>

lemma activeDatesOf_Nil [simp]: "activeDatesOf [] year = []"
  by (simp add: activeDatesOf_def Map_keys_def)

lemma calculateStreaks_Nil [simp]:
  "calculateStreaks w [] year n = Some (\<lparr>maxStreak = 0, currentStreak = 0, maxStreakDays = []\<rparr>, n)"
  by (simp add: calculateStreaks_def)

lemma cacheHitRate_from:
  assumes "calculateAmpStats_from w s year = Some r"
  shows "cacheHitRate r =
           (if totalCacheReadTokens s > 0
            then (of_int (totalCacheReadTokens s) / of_int (totalCacheReadTokens s + totalInputTokens s)) * 100
            else 0)"
  using assms
  by (auto simp: calculateAmpStats_from_def Let_def split: option.splits prod.splits)

text \<open>
  Claim C7. The cache hit rate of the result is
  \<open>cacheReadTokens / (cacheReadTokens + inputTokens) * 100\<close> when the summary's
  \<open>cacheReadTokens\<close> is positive and 0 otherwise; the denominator is positive whenever
  the division is made and \<open>inputTokens\<close> is not negative; 50 and 50 give 50, and no
  cache reads give 0.
\<close>

theorem cacheHitRate_formula:
  "(calculateAmpStats_from w s year = Some r \<longrightarrow>
      cacheHitRate r =
        (if totalCacheReadTokens s > 0
         then (of_int (totalCacheReadTokens s) / of_int (totalCacheReadTokens s + totalInputTokens s)) * 100
         else 0)
      \<and> (totalCacheReadTokens s > 0 \<and> totalInputTokens s \<ge> 0 \<longrightarrow>
           totalCacheReadTokens s + totalInputTokens s > 0))
   \<and> (\<exists>r1. calculateAmpStats_from (utcWorld 0)
                (emptySummary\<lparr>totalCacheReadTokens := 50, totalInputTokens := 50\<rparr>) 2025 = Some r1
            \<and> cacheHitRate r1 = 50)
   \<and> (\<exists>r0. calculateAmpStats_from (utcWorld 0)
                (emptySummary\<lparr>totalCacheReadTokens := 0, totalInputTokens := 50\<rparr>) 2025 = Some r0
            \<and> cacheHitRate r0 = 0)"
proof -
  have a: "\<exists>r1. calculateAmpStats_from (utcWorld 0)
                (emptySummary\<lparr>totalCacheReadTokens := 50, totalInputTokens := 50\<rparr>) 2025 = Some r1
            \<and> cacheHitRate r1 = 50"
    by (simp add: calculateAmpStats_from_def emptySummary_def Let_def Date_now_def split: prod.splits)
  have b: "\<exists>r0. calculateAmpStats_from (utcWorld 0)
                (emptySummary\<lparr>totalCacheReadTokens := 0, totalInputTokens := 50\<rparr>) 2025 = Some r0
            \<and> cacheHitRate r0 = 0"
    by (simp add: calculateAmpStats_from_def emptySummary_def Let_def Date_now_def split: prod.splits)
  show ?thesis using a b cacheHitRate_from by auto
qed

theorem cacheHitRate_formula_witness:
  "cacheHitRate (the (calculateAmpStats_from (utcWorld 0)
      (emptySummary\<lparr>totalCacheReadTokens := 30, totalInputTokens := 10\<rparr>) 2025)) = 75"
proof -
  obtain r where r: "calculateAmpStats_from (utcWorld 0)
      (emptySummary\<lparr>totalCacheReadTokens := 30, totalInputTokens := 10\<rparr>) 2025 = Some r"
    by (simp add: calculateAmpStats_from_def emptySummary_def Let_def Date_now_def split: prod.splits)
  from cacheHitRate_formula [of "utcWorld 0" "emptySummary\<lparr>totalCacheReadTokens := 30, totalInputTokens := 10\<rparr>" 2025 r] r
  have "cacheHitRate r = 75" by (simp add: emptySummary_def)
  with r show ?thesis by simp
qed

section \<open>Project paths\<close>

lemma indexOf_prefix: "prefix t s \<Longrightarrow> indexOf s t = Some 0"
  by (cases s) auto

lemma indexOf_None_iff: "indexOf s t = None \<longleftrightarrow> \<not> contains s t"
  unfolding str_includes_iff [symmetric]
  by (induction s) auto

lemma indexOf_Some:
  "indexOf s t = Some i \<Longrightarrow>
     (\<exists>r. s = take i s @ t @ r) \<and> (\<forall>p' r'. s = p' @ t @ r' \<longrightarrow> i \<le> length p') \<and> i \<le> length s"
proof (induction s arbitrary: i)
  case Nil
  then show ?case by (auto split: if_splits)
next
  case (Cons c s)
  show ?case
  proof (cases "prefix t (c # s)")
    case True
    with Cons.prems have "i = 0" by simp
    with True show ?thesis by (auto simp: prefix_def)
  next
    case False
    with Cons.prems obtain j where j: "indexOf s t = Some j" "i = Suc j" by auto
    from Cons.IH [OF j(1)] obtain r where r: "s = take j s @ t @ r"
      and mn: "\<forall>p' r'. s = p' @ t @ r' \<longrightarrow> j \<le> length p'" and le: "j \<le> length s" by blast
    have "c # s = take i (c # s) @ t @ r" using r j(2) by simp
    moreover have "i \<le> length p'" if "c # s = p' @ t @ r'" for p' r'
    proof (cases p')
      case Nil
      with that False show ?thesis by (simp add: prefix_def)
    next
      case (Cons a p'')
      with that have "s = p'' @ t @ r'" by simp
      with mn have "j \<le> length p''" by blast
      with Cons j(2) show ?thesis by simp
    qed
    ultimately show ?thesis using le j(2) by auto
  qed
qed

lemma indexOf_before_first:
  assumes "before_first s t p"
  shows "indexOf s t = Some (length p)"
proof -
  from assms obtain r where r: "s = p @ t @ r"
    and mn: "\<And>p' r'. s = p' @ t @ r' \<Longrightarrow> length p \<le> length p'"
    by (auto simp: before_first_def)
  have "contains s t" using r by (auto simp: contains_def)
  then obtain i where i: "indexOf s t = Some i"
    using indexOf_None_iff [of s t] by (cases "indexOf s t") auto
  from indexOf_Some [OF i] obtain r2 where r2: "s = take i s @ t @ r2"
    and mn2: "\<forall>p' r'. s = p' @ t @ r' \<longrightarrow> i \<le> length p'" and le: "i \<le> length s" by blast
  have "i \<le> length p" using mn2 r by blast
  moreover have "length p \<le> i" using mn [OF r2] le by simp
  ultimately show ?thesis using i by simp
qed

lemma find_indicator_first:
  assumes "\<forall>m' \<in> set pre. \<not> contains path m'" and "before_first path m p"
  shows "find_indicator path (pre @ m # post) = Some p"
  using assms(1)
proof (induction pre)
  case Nil
  from assms(2) obtain r where "path = p @ m @ r" by (auto simp: before_first_def)
  then have "take (length p) path = p" by simp
  then show ?case using indexOf_before_first [OF assms(2)] by simp
next
  case (Cons a pre)
  then have "indexOf path a = None" by (simp add: indexOf_None_iff)
  with Cons show ?case by simp
qed

lemma find_indicator_none:
  "\<forall>m \<in> set ms. \<not> contains path m \<Longrightarrow> find_indicator path ms = None"
  by (induction ms) (auto simp: indexOf_None_iff split: option.splits)

lemma split_not_Nil [simp]: "split s c \<noteq> []"
  by (induction s) (auto split: list.splits)

lemma split_append: "split (a @ c # b) c = split a c @ split b c"
proof (induction a)
  case Nil
  then show ?case by simp
next
  case (Cons x a)
  obtain p ps where "split a c = p # ps" using split_not_Nil [of a c] by (cases "split a c") auto
  with Cons show ?case by simp
qed

lemma split_no_sep: "c \<notin> set b \<Longrightarrow> split b c = [b]"
  by (induction b) auto

lemma length_split: "length (split s c) = Suc (length (filter (\<lambda>x. x = c) s))"
  by (induction s) (auto split: list.splits)

lemma join_Cons_Cons: "join ((x # p) # ps) sep = x # join (p # ps) sep"
  by (cases ps) auto

lemma join_split: "join (split s c) [c] = s"
proof (induction s)
  case Nil
  then show ?case by simp
next
  case (Cons x s)
  obtain p ps where pp: "split s c = p # ps" using split_not_Nil [of s c] by (cases "split s c") auto
  show ?case
  proof (cases "x = c")
    case True
    with Cons pp show ?thesis by simp
  next
    case False
    with Cons pp show ?thesis by (simp add: join_Cons_Cons)
  qed
qed

lemma parent_of_split:
  assumes "CHR ''/'' \<notin> set b"
  shows "join (butlast (split (a @ ''/'' @ b) CHR ''/'')) ''/'' = a"
proof -
  have "split (a @ ''/'' @ b) CHR ''/'' = split a CHR ''/'' @ [b]"
    using split_append [of a "CHR ''/''" b] split_no_sep [OF assms] by simp
  then show ?thesis by (simp add: join_split)
qed

lemma strip_scheme: "replace (''file://'' @ path) ''file://'' [] = path"
proof -
  have "indexOf (''file://'' @ path) ''file://'' = Some 0"
    by (rule indexOf_prefix) simp
  then show ?thesis by (simp add: replace_def)
qed

lemma before_first_indexOf:
  assumes "indexOf s t = Some i"
  shows "before_first s t (take i s)"
proof -
  from indexOf_Some [OF assms] obtain r where r: "s = take i s @ t @ r"
    and mn: "\<forall>p' r'. s = p' @ t @ r' \<longrightarrow> i \<le> length p'" and le: "i \<le> length s" by blast
  have "length (take i s) = i" using le by simp
  then show ?thesis unfolding before_first_def using r mn by metis
qed

text \<open>
  Claim C3, amended. A URI that does not start with \<open>file://\<close> derives no project.
  For \<open>file://\<close> followed by \<open>path\<close>: the first marker, in the order \<open>/src/\<close>,
  \<open>/lib/\<close>, \<open>/app/\<close>, \<open>/components/\<close>, \<open>/pages/\<close>, that occurs anywhere in the path
  decides, and the project is what stands before that marker's leftmost occurrence; when
  no marker occurs, a path of at least four segments (three separators) gives what stands
  before its last separator, and a shorter one gives no project.
\<close>

theorem extractProjectPath_priority:
  "(\<not> starts_with u ''file://'' \<longrightarrow> extractProjectPath u = None)
   \<and> (projectIndicators = pre @ m # post \<and> (\<forall>m' \<in> set pre. \<not> contains path m')
        \<and> before_first path m p \<longrightarrow>
      extractProjectPath (''file://'' @ path) = Some p)
   \<and> ((\<forall>m' \<in> set projectIndicators. \<not> contains path m') \<and> slashes path \<ge> 3
        \<and> path = parent @ ''/'' @ leaf \<and> CHR ''/'' \<notin> set leaf \<longrightarrow>
      extractProjectPath (''file://'' @ path) = Some parent)
   \<and> ((\<forall>m' \<in> set projectIndicators. \<not> contains path m') \<and> slashes path < 3 \<longrightarrow>
      extractProjectPath (''file://'' @ path) = None)"
proof -
  have s: "startsWith (''file://'' @ path) ''file://''" for path
    by (simp add: startsWith_def)
  have 1: "\<not> starts_with u ''file://'' \<Longrightarrow> extractProjectPath u = None"
    by (simp add: extractProjectPath_def startsWith_iff)
  have 2: "extractProjectPath (''file://'' @ path) = Some p"
    if "projectIndicators = pre @ m # post" "\<forall>m' \<in> set pre. \<not> contains path m'" "before_first path m p"
  proof -
    have "find_indicator path projectIndicators = Some p"
      unfolding that(1) by (rule find_indicator_first [OF that(2,3)])
    then show ?thesis
      using s [of path] strip_scheme [of path] by (simp add: extractProjectPath_def)
  qed
  have 3: "extractProjectPath (''file://'' @ path) = Some parent"
    if "\<forall>m' \<in> set projectIndicators. \<not> contains path m'" "slashes path \<ge> 3"
       "path = parent @ ''/'' @ leaf" "CHR ''/'' \<notin> set leaf"
  proof -
    have "find_indicator path projectIndicators = None"
      using find_indicator_none [OF that(1)] .
    moreover have "length (split path CHR ''/'') \<ge> 4"
      using that(2) by (simp add: length_split slashes_def)
    moreover have "join (butlast (split path CHR ''/'')) ''/'' = parent"
      using parent_of_split [OF that(4)] that(3) by simp
    ultimately show ?thesis
      using s [of path] strip_scheme [of path] by (simp add: extractProjectPath_def Let_def)
  qed
  have 4: "extractProjectPath (''file://'' @ path) = None"
    if "\<forall>m' \<in> set projectIndicators. \<not> contains path m'" "slashes path < 3"
  proof -
    have "find_indicator path projectIndicators = None"
      using find_indicator_none [OF that(1)] .
    moreover have "\<not> length (split path CHR ''/'') \<ge> 4"
      using that(2) by (simp add: length_split slashes_def)
    ultimately show ?thesis
      using s [of path] strip_scheme [of path] by (simp add: extractProjectPath_def Let_def)
  qed
  show ?thesis using 1 2 3 4 by blast
qed

theorem extractProjectPath_priority_witness:
  "extractProjectPath ''http://a/src/c.ts'' = None
   \<and> extractProjectPath ''file:///a/lib/b/src/c.ts'' = Some ''/a/lib/b''
   \<and> extractProjectPath ''file:///Users/u/file.ts'' = Some ''/Users/u''
   \<and> extractProjectPath ''file:///u/file.ts'' = None"
proof -
  have n: "\<forall>m' \<in> set projectIndicators. \<not> contains path m'"
    if "list_all (\<lambda>m'. indexOf path m' = None) projectIndicators" for path
    using that by (simp add: list_all_iff indexOf_None_iff)
  have 1: "\<not> starts_with ''http://a/src/c.ts'' ''file://''"
    unfolding startsWith_iff [symmetric] by (simp add: startsWith_def)
  have "indexOf ''/a/lib/b/src/c.ts'' ''/src/'' = Some 8" by code_simp
  from before_first_indexOf [OF this]
  have 2: "before_first ''/a/lib/b/src/c.ts'' ''/src/'' ''/a/lib/b''" by simp
  have "list_all (\<lambda>m'. indexOf ''/Users/u/file.ts'' m' = None) projectIndicators" by code_simp
  then have 3: "\<forall>m' \<in> set projectIndicators. \<not> contains ''/Users/u/file.ts'' m'" by (rule n)
  have "list_all (\<lambda>m'. indexOf ''/u/file.ts'' m' = None) projectIndicators" by code_simp
  then have 4: "\<forall>m' \<in> set projectIndicators. \<not> contains ''/u/file.ts'' m'" by (rule n)
  have p: "projectIndicators = [] @ ''/src/'' # [''/lib/'', ''/app/'', ''/components/'', ''/pages/'']"
    by (simp add: projectIndicators_def)
  show ?thesis
    using extractProjectPath_priority [of "''http://a/src/c.ts''" "[]" "''/src/''"
        "[''/lib/'', ''/app/'', ''/components/'', ''/pages/'']" "''/a/lib/b/src/c.ts''" "''/a/lib/b''"
        "''/Users/u''" "''file.ts''"] 1 2 p
      extractProjectPath_priority [of "''x''" "[]" "''/src/''" "[]" "''/Users/u/file.ts''" "[]"
        "''/Users/u''" "''file.ts''"] 3
      extractProjectPath_priority [of "''x''" "[]" "''/src/''" "[]" "''/u/file.ts''" "[]"
        "''/u''" "''file.ts''"] 4
    by (simp add: slashes_def)
qed

text \<open>
  The claim as stated fails: \<open>/lib/\<close> occurs to the left of \<open>/src/\<close> in the path
  below, and the program still cuts at \<open>/src/\<close>.
\<close>

theorem extractProjectPath_leftmost_counterexample:
  "extractProjectPath ''file:///a/lib/b/src/c.ts'' = Some ''/a/lib/b''
   \<and> indexOf ''/a/lib/b/src/c.ts'' ''/lib/'' = Some 2
   \<and> indexOf ''/a/lib/b/src/c.ts'' ''/src/'' = Some 8
   \<and> extractProjectPath_leftmost ''file:///a/lib/b/src/c.ts'' = Some ''/a''"
  by code_simp

section \<open>The collector's totals\<close>




lemma retained_Cons: "retained w year (f # fs) = thread_list w year f @ retained w year fs"
  by (simp add: retained_def thread_list_def)






section \<open>Threads of another year\<close>

lemma collect_thread_skip: "thread_list w year f = [] \<Longrightarrow> collect_thread w year s f = s"
  by (auto simp: thread_list_def collect_thread_def in_year_def Let_def split: option.splits if_splits)

lemma collect_none_retained:
  "retained w year fs = [] \<Longrightarrow> foldl (collect_thread w year) s fs = s"
  by (induction fs) (simp_all add: retained_Cons collect_thread_skip)

lemma findMostActiveDay_Nil [simp]: "findMostActiveDay [] = None"
  by (simp add: findMostActiveDay_def)

text \<open>
  Claim C9. A thread whose creation date, in local time, is not in the requested year
  leaves the summary as it is, at the step that reads it and so in the result: the result
  is that of the input without the thread. When no thread is of the year the summary is
  the empty one, and the statistics are returned with \<open>totalSessions = 0\<close>, no most
  active day and \<open>maxStreak = 0\<close>.
\<close>

theorem other_year_thread_ignored:
  "(\<not> in_year w year t \<longrightarrow>
      collect_thread w year s (Some t) = s
      \<and> collectAmpUsageSummary w (xs @ Some t # ys) year = collectAmpUsageSummary w (xs @ ys) year)
   \<and> (retained w year fs = [] \<longrightarrow>
        collectAmpUsageSummary w fs year = emptySummary
        \<and> (\<exists>r. calculateAmpStats w fs year = Some r
              \<and> totalSessions' r = 0 \<and> mostActiveDay r = None \<and> maxStreak r = 0))"
proof -
  have a: "collect_thread w year s (Some t) = s" if "\<not> in_year w year t" for s
    using that by (simp add: collect_thread_skip thread_list_def)
  have b: "collectAmpUsageSummary w (xs @ Some t # ys) year = collectAmpUsageSummary w (xs @ ys) year"
    if "\<not> in_year w year t"
    by (simp add: collectAmpUsageSummary_def a [OF that])
  have c: "collectAmpUsageSummary w fs year = emptySummary" if "retained w year fs = []"
    using that by (simp add: collectAmpUsageSummary_def collect_none_retained)
  have d: "\<exists>r. calculateAmpStats_from w emptySummary year = Some r
              \<and> totalSessions' r = 0 \<and> mostActiveDay r = None \<and> maxStreak r = 0"
    by (simp add: calculateAmpStats_from_def emptySummary_def Let_def split: prod.splits)
  show ?thesis using a b c d by (simp add: calculateAmpStats_def)
qed

theorem other_year_thread_ignored_witness:
  "collectAmpUsageSummary (utcWorld 0) exampleThreads 2025
     = collectAmpUsageSummary (utcWorld 0) (butlast exampleThreads) 2025
   \<and> totalSessions' (the (calculateAmpStats (utcWorld 0) exampleThreads 2023)) = 0
   \<and> mostActiveDay (the (calculateAmpStats (utcWorld 0) exampleThreads 2023)) = None
   \<and> maxStreak (the (calculateAmpStats (utcWorld 0) exampleThreads 2023)) = 0"
proof -
  let ?t = "\<lparr>created = 1704110400000,
            messages =
              [\<lparr>role = Assistant,
                usage = Some \<lparr>model = Some ''claude-3-opus-20240229'', inputTokens = Some 100,
                              outputTokens = Some 50, cacheReadInputTokens = Some 7, credits = Some 1\<rparr>,
                fileMentions = None\<rparr>]\<rparr>"
  have n: "\<not> in_year (utcWorld 0) 2025 ?t" by code_simp
  have r: "retained (utcWorld 0) 2023 exampleThreads = []" by code_simp
  have x: "exampleThreads = butlast exampleThreads @ Some ?t # []"
    by (simp add: exampleThreads_def)
  from other_year_thread_ignored [of "utcWorld 0" 2025 ?t emptySummary "butlast exampleThreads" "[]"
      "[]"] n
  have 1: "collectAmpUsageSummary (utcWorld 0) exampleThreads 2025
     = collectAmpUsageSummary (utcWorld 0) (butlast exampleThreads) 2025"
    using x by simp
  from other_year_thread_ignored [of "utcWorld 0" 2023 ?t emptySummary "[]" "[]" exampleThreads] r
  obtain r where "calculateAmpStats (utcWorld 0) exampleThreads 2023 = Some r"
    "totalSessions' r = 0" "mostActiveDay r = None" "maxStreak r = 0" by blast
  with 1 show ?thesis by simp
qed

section \<open>Streaks\<close>

lemma is_run_extend:
  "is_run w ds s e \<Longrightarrow> Suc e < length ds \<Longrightarrow> adjacent w ds (Suc e) \<Longrightarrow> is_run w ds s (Suc e)"
  by (auto simp: is_run_def le_Suc_eq)

lemma is_run_single: "i < length ds \<Longrightarrow> is_run w ds i i"
  by (auto simp: is_run_def)

lemma run_starts_after:
  assumes "is_run w ds s e" "ts \<le> e" "ts = 0 \<or> \<not> adjacent w ds ts"
  shows "ts \<le> s"
proof (rule ccontr)
  assume "\<not> ts \<le> s"
  then have "s < ts" by simp
  with assms(1,2) have "adjacent w ds ts" by (auto simp: is_run_def)
  with assms(3) \<open>s < ts\<close> show False by auto
qed

lemma inv_init: "ds \<noteq> [] \<Longrightarrow> streak_inv w ds 1 (1, 1, 0, 0, 0)"
  by (auto simp: streak_inv_def is_run_def)

lemma inv_extend_new:
  assumes inv: "streak_inv w ds i (mx, tmp, ts, ms, me)"
    and i: "1 \<le> i" "i < length ds" and adj: "adjacent w ds i" and gt: "tmp + 1 > mx"
  shows "streak_inv w ds (i + 1) (tmp + 1, tmp + 1, ts, ts, i)"
proof -
  from inv have ts: "ts < i" "tmp + ts = i" "is_run w ds ts (i - 1)" "ts = 0 \<or> \<not> adjacent w ds ts"
    and old: "\<And>s e. is_run w ds s e \<Longrightarrow> e < i \<Longrightarrow> e + 1 \<le> mx + s"
    by (auto simp: streak_inv_def)
  have run: "is_run w ds ts i"
    using is_run_extend [OF ts(3)] i adj by simp
  have best: "e + 1 \<le> tmp + 1 + s \<and> (e + 1 = tmp + 1 + s \<longrightarrow> i \<le> e)"
    if r: "is_run w ds s e" and e: "e < i + 1" for s e
  proof (cases "e < i")
    case True
    from old [OF r True] gt show ?thesis by simp
  next
    case False
    with e have "e = i" by simp
    with r have "ts \<le> s" using run_starts_after [OF _ _ ts(4)] ts(1) by simp
    with \<open>e = i\<close> ts(2) show ?thesis by simp
  qed
  then have "\<forall>s e. is_run w ds s e \<and> e < i + 1 \<longrightarrow>
      e + 1 \<le> tmp + 1 + s \<and> (e + 1 = tmp + 1 + s \<longrightarrow> i \<le> e)" by blast
  then show ?thesis
    unfolding streak_inv_def using ts run by simp
qed

lemma inv_extend_old:
  assumes inv: "streak_inv w ds i (mx, tmp, ts, ms, me)"
    and i: "1 \<le> i" "i < length ds" and adj: "adjacent w ds i" and le: "\<not> tmp + 1 > mx"
  shows "streak_inv w ds (i + 1) (mx, tmp + 1, ts, ms, me)"
proof -
  from inv have ts: "ts < i" "tmp + ts = i" "is_run w ds ts (i - 1)" "ts = 0 \<or> \<not> adjacent w ds ts"
    and mx: "is_run w ds ms me" "me < i" "mx + ms = me + 1"
    and old: "\<And>s e. is_run w ds s e \<Longrightarrow> e < i \<Longrightarrow> e + 1 \<le> mx + s \<and> (e + 1 = mx + s \<longrightarrow> me \<le> e)"
    by (auto simp: streak_inv_def)
  have run: "is_run w ds ts i"
    using is_run_extend [OF ts(3)] i adj by simp
  have best: "e + 1 \<le> mx + s \<and> (e + 1 = mx + s \<longrightarrow> me \<le> e)"
    if r: "is_run w ds s e" and e: "e < i + 1" for s e
  proof (cases "e < i")
    case True
    from old [OF r True] show ?thesis .
  next
    case False
    with e have "e = i" by simp
    with r have "ts \<le> s" using run_starts_after [OF _ _ ts(4)] ts(1) by simp
    with \<open>e = i\<close> ts(2) le mx(2) show ?thesis by simp
  qed
  then have "\<forall>s e. is_run w ds s e \<and> e < i + 1 \<longrightarrow>
      e + 1 \<le> mx + s \<and> (e + 1 = mx + s \<longrightarrow> me \<le> e)" by blast
  then show ?thesis
    unfolding streak_inv_def using ts run mx by auto
qed

lemma inv_reset:
  assumes inv: "streak_inv w ds i (mx, tmp, ts, ms, me)"
    and i: "1 \<le> i" "i < length ds" and adj: "\<not> adjacent w ds i"
  shows "streak_inv w ds (i + 1) (mx, 1, i, ms, me)"
proof -
  from inv have mx: "is_run w ds ms me" "me < i" "mx + ms = me + 1"
    and old: "\<And>s e. is_run w ds s e \<Longrightarrow> e < i \<Longrightarrow> e + 1 \<le> mx + s \<and> (e + 1 = mx + s \<longrightarrow> me \<le> e)"
    by (auto simp: streak_inv_def)
  have ms: "ms \<le> me" using mx(1) by (simp add: is_run_def)
  have best: "e + 1 \<le> mx + s \<and> (e + 1 = mx + s \<longrightarrow> me \<le> e)"
    if r: "is_run w ds s e" and e: "e < i + 1" for s e
  proof (cases "e < i")
    case True
    from old [OF r True] show ?thesis .
  next
    case False
    with e have ei: "e = i" by simp
    have "s = i"
    proof (rule ccontr)
      assume "s \<noteq> i"
      with r ei have "s < i" by (simp add: is_run_def)
      with r ei have "adjacent w ds i" by (simp add: is_run_def)
      with adj show False by simp
    qed
    with ei mx(2,3) ms show ?thesis by simp
  qed
  then have "\<forall>s e. is_run w ds s e \<and> e < i + 1 \<longrightarrow>
      e + 1 \<le> mx + s \<and> (e + 1 = mx + s \<longrightarrow> me \<le> e)" by blast
  then show ?thesis
    unfolding streak_inv_def using is_run_single [OF i(2), of w] adj mx i by auto
qed

lemma streak_loop_inv:
  assumes "streak_inv w ds i st" "1 \<le> i" "i \<le> length ds"
  shows "streak_inv w ds (length ds) (streak_loop w ds i st)"
  using assms
proof (induction w ds i st rule: streak_loop.induct)
  case (1 w ds i mx tmp ts ms me)
  show ?case
  proof (cases "i < length ds")
    case False
    with "1.prems" have "i = length ds" by simp
    with "1.prems"(1) show ?thesis by (simp add: streak_loop.simps)
  next
    case lt: True
    show ?thesis
    proof (cases "diffDays w (ds ! (i - 1)) (ds ! i) = Some 1")
      case adj: True
      then have a: "adjacent w ds i" by (simp add: adjacent_def)
      show ?thesis
      proof (cases "tmp + 1 > mx")
        case True
        have "streak_inv w ds (length ds) (streak_loop w ds (i + 1) (tmp + 1, tmp + 1, ts, ts, i))"
          using "1.IH"(1) [OF lt adj True] inv_extend_new [OF "1.prems"(1,2) lt a True] lt by simp
        then show ?thesis using lt adj True by (simp add: streak_loop.simps [of w ds i])
      next
        case False
        have "streak_inv w ds (length ds) (streak_loop w ds (i + 1) (mx, tmp + 1, ts, ms, me))"
          using "1.IH"(2) [OF lt adj False] inv_extend_old [OF "1.prems"(1,2) lt a False] lt by simp
        then show ?thesis using lt adj False by (simp add: streak_loop.simps [of w ds i])
      qed
    next
      case nadj: False
      then have a: "\<not> adjacent w ds i" by (simp add: adjacent_def)
      have "streak_inv w ds (length ds) (streak_loop w ds (i + 1) (mx, 1, i, ms, me))"
        using "1.IH"(3) [OF lt nadj] inv_reset [OF "1.prems"(1,2) lt a] lt by simp
      then show ?thesis using lt nadj by (simp add: streak_loop.simps [of w ds i])
    qed
  qed
qed

lemma streak_loop_result:
  assumes "ds \<noteq> []" and "streak_loop w ds 1 (1, 1, 0, 0, 0) = (mx, tmp, ts, ms, me)"
  shows "is_run w ds ms me \<and> mx = Suc me - ms
         \<and> (\<forall>s e. is_run w ds s e \<longrightarrow> Suc e - s \<le> mx \<and> (Suc e - s = mx \<longrightarrow> me \<le> e))"
proof -
  have "1 \<le> length ds" using assms(1) by (cases ds) auto
  have "streak_inv w ds (length ds) (streak_loop w ds 1 (1, 1, 0, 0, 0))"
    by (rule streak_loop_inv [OF inv_init [OF assms(1)]]) (use \<open>1 \<le> length ds\<close> in simp_all)
  then have inv: "streak_inv w ds (length ds) (mx, tmp, ts, ms, me)"
    unfolding assms(2) .
  then have mx: "is_run w ds ms me" "mx + ms = me + 1"
    and best: "\<And>s e. is_run w ds s e \<Longrightarrow> e < length ds \<Longrightarrow> e + 1 \<le> mx + s \<and> (e + 1 = mx + s \<longrightarrow> me \<le> e)"
    by (auto simp: streak_inv_def)
  have "Suc e - s \<le> mx \<and> (Suc e - s = mx \<longrightarrow> me \<le> e)" if r: "is_run w ds s e" for s e
  proof -
    from r have "e < length ds" "s \<le> e" by (auto simp: is_run_def)
    with best [OF r] show ?thesis by auto
  qed
  with mx show ?thesis by auto
qed

lemma formatDateKey_invalid: "formatDateKey w None = ''NaN-NaN-NaN''"
  by (simp add: formatDateKey_def getFullYear_def getMonth_def getDate_def String_num_def padStart2_def)

lemma msPerDay_pos: "0 < msPerDay"
  by (simp add: msPerDay_def)

lemma countStreakBackwards_loop_invalid:
  assumes "\<not> Map_has daily ''NaN-NaN-NaN''"
  shows "countStreakBackwards_loop w daily None streak = Some streak"
  using assms
  by (subst countStreakBackwards_loop.simps) (simp add: Date_minus_def formatDateKey_invalid)

lemma countStreakBackwards_loop_returns_valid:
  assumes "\<not> Map_has daily ''NaN-NaN-NaN''"
  shows "\<exists>k. countStreakBackwards_loop w daily (Some t) streak = Some k"
proof (induction "nat (t + maxTime)" arbitrary: t streak rule: less_induct)
  case less
  show ?case
  proof (cases "new_Date (t - msPerDay)")
    case None
    then show ?thesis
      using assms
      by (subst countStreakBackwards_loop.simps) (simp add: Date_minus_def formatDateKey_invalid)
  next
    case (Some t')
    then have t': "t' = t - msPerDay" "- maxTime \<le> t'"
      by (auto simp: new_Date_def split: if_splits)
    then have "nat (t' + maxTime) < nat (t + maxTime)"
      using msPerDay_pos by linarith
    from less [OF this] obtain k where "countStreakBackwards_loop w daily (Some t') (streak + 1) = Some k"
      by blast
    then show ?thesis
      using Some
      by (subst countStreakBackwards_loop.simps) (simp add: Date_minus_def Let_def)
  qed
qed

lemma countStreakBackwards_returns:
  assumes "\<not> Map_has daily ''NaN-NaN-NaN''"
  shows "\<exists>k. countStreakBackwards w daily d = Some k"
  unfolding countStreakBackwards_def
  using countStreakBackwards_loop_invalid [OF assms] countStreakBackwards_loop_returns_valid [OF assms]
  by (cases d) auto

lemma calculateStreaks_returns:
  assumes "\<not> Map_has daily ''NaN-NaN-NaN''"
  shows "\<exists>r n'. calculateStreaks w daily year n = Some (r, n')"
proof -
  obtain k1 where k1: "countStreakBackwards w daily (new_Date (clock w (Suc (Suc n)))) = Some k1"
    using countStreakBackwards_returns [OF assms] by blast
  obtain k2 where k2: "countStreakBackwards w daily (new_Date (clock w (Suc (Suc n)) - msPerDay)) = Some k2"
    using countStreakBackwards_returns [OF assms] by blast
  show ?thesis
    by (simp add: calculateStreaks_def Let_def Date_now_def k1 k2 split: prod.splits)
qed

lemma calculateStreaks_empty:
  "activeDatesOf daily year = [] \<Longrightarrow>
     calculateStreaks w daily year n = Some (\<lparr>maxStreak = 0, currentStreak = 0, maxStreakDays = []\<rparr>, n)"
  by (simp add: calculateStreaks_def)

lemma calculateStreaks_max:
  assumes "calculateStreaks w daily year n = Some (r, n')"
    and "activeDatesOf daily year \<noteq> []"
    and "streak_loop w (activeDatesOf daily year) 1 (1, 1, 0, 0, 0) = (mx, tmp, ts, ms, me)"
  shows "maxStreak r = mx"
    and "maxStreakDays r = foldl (\<lambda>s i. Set_add s (activeDatesOf daily year ! i)) [] [ms ..< me + 1]"
  using assms
  by (auto simp: calculateStreaks_def Let_def Date_now_def split: if_splits)

lemma foldl_Set_add_set:
  "set (foldl (\<lambda>s i. Set_add s (f i)) acc js) = set acc \<union> f ` set js"
  by (induction js arbitrary: acc) (auto simp: Set_add_def)

lemma foldl_Set_add_distinct:
  "distinct (acc @ map f js) \<Longrightarrow> foldl (\<lambda>s i. Set_add s (f i)) acc js = acc @ map f js"
  by (induction js arbitrary: acc) (auto simp: Set_add_def)

lemma activeDatesOf_sorted: "sorted (activeDatesOf daily year)"
  by (simp add: activeDatesOf_def)

lemma activeDatesOf_set:
  "set (activeDatesOf daily year) = {k \<in> set (Map_keys daily). starts_with k (String_int year)}"
  by (auto simp: activeDatesOf_def startsWith_iff)

lemma activeDatesOf_distinct: "distinct (Map_keys daily) \<Longrightarrow> distinct (activeDatesOf daily year)"
  by (simp add: activeDatesOf_def)

lemma Math_round_int: "Math_round (of_int k) = k"
  by (simp add: Math_round_def floor_eq_iff)

lemma isoDate_day: "isoDate s = Some t \<Longrightarrow> t = (t div msPerDay) * msPerDay"
  using msPerDay_pos
  by (auto simp: isoDate_def Let_def split: list.splits if_splits)

lemma diffDays_iso:
  assumes "parseDate w = isoDate"
  shows "diffDays w a b =
          (case (dayOfKey b, dayOfKey a) of (Some x, Some y) \<Rightarrow> Some (x - y) | _ \<Rightarrow> None)"
proof (cases "isoDate a")
  case None
  then show ?thesis using assms
    by (simp add: diffDays_def Date_of_string_def dayOfKey_def split: option.splits)
next
  case a: (Some ta)
  show ?thesis
  proof (cases "isoDate b")
    case None
    then show ?thesis using assms by (simp add: diffDays_def Date_of_string_def dayOfKey_def)
  next
    case b: (Some tb)
    define x where "x = tb div msPerDay"
    define y where "y = ta div msPerDay"
    have ta: "ta = y * msPerDay" and tb: "tb = x * msPerDay"
      using isoDate_day [OF a] isoDate_day [OF b] by (simp_all add: x_def y_def)
    have "(of_int (tb - ta) :: rat) / of_int msPerDay = of_int (x - y)"
      using msPerDay_pos by (simp add: ta tb left_diff_distrib [symmetric])
    then have "Math_round (of_int (tb - ta) / of_int msPerDay) = x - y"
      by (simp only: Math_round_int)
    then show ?thesis using assms a b msPerDay_pos
      by (simp add: diffDays_def Date_of_string_def dayOfKey_def ta tb)
  qed
qed

lemma adjacent_iso:
  assumes "parseDate w = isoDate"
  shows "adjacent w ds i \<longleftrightarrow>
          (\<exists>a. dayOfKey (ds ! (i - 1)) = Some a \<and> dayOfKey (ds ! i) = Some (a + 1))"
  unfolding adjacent_def diffDays_iso [OF assms]
  by (auto split: option.splits)

lemma diffDays_parse_cong: "parseDate w = parseDate w' \<Longrightarrow> diffDays w a b = diffDays w' a b"
  by (simp add: diffDays_def Date_of_string_def)

lemma streak_loop_parse_cong:
  assumes "parseDate w = parseDate w'"
  shows "streak_loop w ds i st = streak_loop w' ds i st"
  using assms
proof (induction w ds i st rule: streak_loop.induct)
  case (1 w ds i mx tmp ts ms me)
  have d: "diffDays w' a b = diffDays w a b" for a b
    using diffDays_parse_cong [OF "1.prems"] by simp
  show ?case
  proof (cases "i < length ds")
    case False
    then show ?thesis
      by (simp add: streak_loop.simps [of w ds i] streak_loop.simps [of w' ds i])
  next
    case True
    then show ?thesis
      using "1.IH" "1.prems"
      by (simp add: streak_loop.simps [of w ds i] streak_loop.simps [of w' ds i] d)
  qed
qed

lemma nth_upt_segment:
  assumes "e < length ds"
  shows "map (\<lambda>i. ds ! i) [s ..< Suc e] = take (Suc e - s) (drop s ds)"
  using assms by (auto simp add: list_eq_iff_nth_eq simp del: upt_Suc)

lemma streaks_of_run:
  assumes c: "calculateStreaks w daily year n = Some (r, n')"
    and ne: "activeDatesOf daily year \<noteq> []"
  shows "\<exists>s e. is_run w (activeDatesOf daily year) s e
           \<and> maxStreak r = Suc e - s
           \<and> maxStreakDays r = foldl (\<lambda>acc i. Set_add acc (activeDatesOf daily year ! i)) [] [s ..< e + 1]
           \<and> (\<forall>s' e'. is_run w (activeDatesOf daily year) s' e' \<longrightarrow>
                 Suc e' - s' \<le> maxStreak r \<and> (Suc e' - s' = maxStreak r \<longrightarrow> e \<le> e'))"
proof -
  obtain mx tmp ts ms me where
    l: "streak_loop w (activeDatesOf daily year) 1 (1, 1, 0, 0, 0) = (mx, tmp, ts, ms, me)"
    by (metis prod_cases5)
  from calculateStreaks_max [OF c ne l] streak_loop_result [OF ne l]
  show ?thesis by blast
qed

lemma digit_val_digit_char: "n < 10 \<Longrightarrow> digit_val (digit_char n) = int n"
proof -
  assume "n < 10"
  then have "n \<in> {0, 1, 2, 3, 4, 5, 6, 7, 8, 9}" by auto
  then show ?thesis by (auto simp: digit_val_def digit_char_def)
qed

lemma is_digit_char: "is_digit c \<Longrightarrow> \<exists>n < 10. c = digit_char n"
proof -
  assume "is_digit c"
  then have "c \<in> digit_char ` {0, 1, 2, 3, 4, 5, 6, 7, 8, 9}"
    by (auto simp: is_digit_def digit_char_def)
  then obtain n where n: "n \<in> {0, 1, 2, 3, 4, 5, 6, 7, 8, 9}" "c = digit_char n" by blast
  from n(1) have "n < 10" by auto
  with n(2) show ?thesis by blast
qed

lemma digit_char_inj:
  assumes "a < 10" "b < 10"
  shows "digit_char a = digit_char b \<longleftrightarrow> a = b"
proof
  assume "digit_char a = digit_char b"
  then have "digit_val (digit_char a) = digit_val (digit_char b)" by simp
  then have "int a = int b"
    by (simp only: digit_val_digit_char [OF assms(1)] digit_val_digit_char [OF assms(2)])
  then show "a = b" by simp
next
  assume "a = b"
  then show "digit_char a = digit_char b" by simp
qed

lemma String_nat_4:
  assumes "1000 \<le> n" "n \<le> 9999"
  shows "String_nat n = [digit_char (n div 1000), digit_char (n div 100 mod 10),
                         digit_char (n div 10 mod 10), digit_char (n mod 10)]"
proof -
  have d: "n div 100 div 10 = n div 1000" "n div 10 div 10 = n div 100"
    by (simp_all add: div_mult2_eq [symmetric])
  have c: "n div 1000 < 10" "\<not> n div 100 < 10" "\<not> n div 10 < 10" "\<not> n < 10"
    using assms by auto
  have 1: "String_nat (n div 1000) = [digit_char (n div 1000)]"
    by (subst String_nat.simps) (simp only: c if_True)
  have 2: "String_nat (n div 100) = String_nat (n div 1000) @ [digit_char (n div 100 mod 10)]"
    by (subst String_nat.simps) (simp only: c if_False d)
  have 3: "String_nat (n div 10) = String_nat (n div 100) @ [digit_char (n div 10 mod 10)]"
    by (subst String_nat.simps) (simp only: c if_False d)
  have 4: "String_nat n = String_nat (n div 10) @ [digit_char (n mod 10)]"
    by (subst String_nat.simps) (simp only: c if_False)
  show ?thesis by (simp only: 1 2 3 4 append.simps)
qed

lemma decimal_digits:
  fixes n :: nat
  assumes "a < 10" "b < 10" "c < 10" "d < 10"
  shows "(a = n div 1000 \<and> b = n div 100 mod 10 \<and> c = n div 10 mod 10 \<and> d = n mod 10 \<and> n \<le> 9999)
         \<longleftrightarrow> 1000 * a + 100 * b + 10 * c + d = n"
proof
  assume l: "a = n div 1000 \<and> b = n div 100 mod 10 \<and> c = n div 10 mod 10 \<and> d = n mod 10 \<and> n \<le> 9999"
  have e1: "n = 10 * (n div 10) + n mod 10" by simp
  have e2: "n div 10 = 10 * (n div 100) + n div 10 mod 10"
    using mult_div_mod_eq [of 10 "n div 10"] by (simp add: div_mult2_eq [symmetric])
  have e3: "n div 100 = 10 * (n div 1000) + n div 100 mod 10"
    using mult_div_mod_eq [of 10 "n div 100"] by (simp add: div_mult2_eq [symmetric])
  from l e1 e2 e3 show "1000 * a + 100 * b + 10 * c + d = n" by linarith
next
  assume r: "1000 * a + 100 * b + 10 * c + d = n"
  define q1 where "q1 = 100 * a + 10 * b + c"
  define q2 where "q2 = 10 * a + b"
  have n1: "n = 10 * q1 + d" using r by (simp add: q1_def)
  have m1: "n mod 10 = d" and d1: "n div 10 = q1"
    using assms(4) by (simp_all add: n1)
  have n2: "q1 = 10 * q2 + c" by (simp add: q1_def q2_def)
  have m2: "q1 mod 10 = c" and d2: "q1 div 10 = q2"
    using assms(3) by (simp_all add: n2)
  have m3: "q2 mod 10 = b" and d3: "q2 div 10 = a"
    using assms(2) by (simp_all add: q2_def)
  have e: "n div 100 = n div 10 div 10" "n div 1000 = n div 10 div 10 div 10"
    by (simp_all add: div_mult2_eq [symmetric])
  have "n \<le> 9999" using r assms by linarith
  then show "a = n div 1000 \<and> b = n div 100 mod 10 \<and> c = n div 10 mod 10 \<and> d = n mod 10 \<and> n \<le> 9999"
    by (simp only: e d1 d2 d3 m1 m2 m3)
qed

lemma year_prefix_iff:
  assumes y: "1000 \<le> year" "year \<le> 9999" and k: "dayOfKey k \<noteq> None"
  shows "starts_with k (String_int year) \<longleftrightarrow> keyYear k = year"
proof -
  from k obtain y1 y2 y3 y4 rest where
    kk: "k = y1 # y2 # y3 # y4 # rest"
    and dg: "is_digit y1" "is_digit y2" "is_digit y3" "is_digit y4"
    by (auto simp: dayOfKey_def isoDate_def Let_def split: list.splits if_splits)
  obtain a b c d where
    abcd: "a < 10" "b < 10" "c < 10" "d < 10"
    and ys: "y1 = digit_char a" "y2 = digit_char b" "y3 = digit_char c" "y4 = digit_char d"
    using is_digit_char [OF dg(1)] is_digit_char [OF dg(2)] is_digit_char [OF dg(3)]
      is_digit_char [OF dg(4)] by blast
  define n where "n = nat year"
  have n: "1000 \<le> n" "n \<le> 9999" "year = int n" using y by (simp_all add: n_def)
  have S: "String_int year = [digit_char (n div 1000), digit_char (n div 100 mod 10),
                         digit_char (n div 10 mod 10), digit_char (n mod 10)]"
    using String_nat_4 [OF n(1,2)] y by (simp add: String_int_def n_def)
  have lt: "n div 1000 < 10" "n div 100 mod 10 < 10" "n div 10 mod 10 < 10" "n mod 10 < 10"
    using n by auto
  have ky: "keyYear k = int (1000 * a + 100 * b + 10 * c + d)"
    by (simp add: keyYear_def kk ys digit_val_digit_char abcd)
  have "starts_with k (String_int year) \<longleftrightarrow>
      digit_char a = digit_char (n div 1000) \<and> digit_char b = digit_char (n div 100 mod 10)
      \<and> digit_char c = digit_char (n div 10 mod 10) \<and> digit_char d = digit_char (n mod 10)"
    by (auto simp: starts_with_def S kk ys)
  also have "\<dots> \<longleftrightarrow> a = n div 1000 \<and> b = n div 100 mod 10 \<and> c = n div 10 mod 10 \<and> d = n mod 10"
    by (simp only: digit_char_inj [OF abcd(1) lt(1)] digit_char_inj [OF abcd(2) lt(2)]
        digit_char_inj [OF abcd(3) lt(3)] digit_char_inj [OF abcd(4) lt(4)])
  also have "\<dots> \<longleftrightarrow> 1000 * a + 100 * b + 10 * c + d = n"
    using decimal_digits [OF abcd, of n] n(2) by blast
  also have "\<dots> \<longleftrightarrow> keyYear k = year"
    unfolding ky n(3) by (simp only: of_nat_eq_iff)
  finally show ?thesis .
qed

lemma jan2025_dates:
  "activeDatesOf jan2025 2025 = [''2025-01-01'', ''2025-01-02'', ''2025-01-03'', ''2025-01-05'']"
  by code_simp

lemma jan2025_loop:
  "streak_loop (utcWorld 0) [''2025-01-01'', ''2025-01-02'', ''2025-01-03'', ''2025-01-05''] 1 (1, 1, 0, 0, 0)
     = (3, 1, 3, 0, 2)"
  by code_simp

lemma jan2025_streak:
  assumes "parseDate w = isoDate" and "calculateStreaks w jan2025 2025 n = Some (r, n')"
  shows "maxStreak r = 3 \<and> maxStreakDays r = [''2025-01-01'', ''2025-01-02'', ''2025-01-03'']"
proof -
  have p: "parseDate w = parseDate (utcWorld 0)" using assms(1) by (simp add: utcWorld_def)
  have l: "streak_loop w (activeDatesOf jan2025 2025) 1 (1, 1, 0, 0, 0) = (3, 1, 3, 0, 2)"
    unfolding jan2025_dates streak_loop_parse_cong [OF p] by (rule jan2025_loop)
  have ne: "activeDatesOf jan2025 2025 \<noteq> []" by (simp add: jan2025_dates)
  have u: "[0 ..< 2 + 1] = [0, Suc 0, 2]" by (simp add: upt_rec numeral_2_eq_2)
  from calculateStreaks_max [OF assms(2) ne l]
  show ?thesis by (simp add: jan2025_dates Set_add_def u numeral_2_eq_2)
qed

text \<open>
  Claim C2. The dates the streak detection walks are the keys of the year, sorted
  ascending; the keys of the year are those that start with the year in decimal, which
  for a date key and a year of four digits are the keys written with that year. With no
  such date \<open>maxStreak\<close> is 0 and \<open>maxStreakDays\<close> is empty.
  Otherwise \<open>maxStreak\<close> and \<open>maxStreakDays\<close> are the length and the members of a run
  \<open>s..e\<close> of the sorted dates, no run is longer, and a run of the same length does not
  end before it: the first longest run is reported. A run is extended exactly by a date
  whose day difference to its predecessor is 1, which for date keys means day numbers one
  apart. The function returns unless the map holds the key of an invalid date. For the
  scenario of 1, 2, 3 and 5 January 2025 the result is 3 with the first three dates.
\<close>

theorem maxStreak_longest_run:
  "(calculateStreaks w daily year n = Some (r, n') \<longrightarrow>
      sorted (activeDatesOf daily year)
      \<and> set (activeDatesOf daily year) = {k \<in> set (Map_keys daily). starts_with k (String_int year)}
      \<and> (activeDatesOf daily year = [] \<longrightarrow> maxStreak r = 0 \<and> maxStreakDays r = [])
      \<and> (activeDatesOf daily year \<noteq> [] \<longrightarrow>
           (\<exists>s e. is_run w (activeDatesOf daily year) s e
              \<and> maxStreak r = Suc e - s
              \<and> set (maxStreakDays r) = {activeDatesOf daily year ! i | i. s \<le> i \<and> i \<le> e}
              \<and> (\<forall>s' e'. is_run w (activeDatesOf daily year) s' e' \<longrightarrow>
                    Suc e' - s' \<le> maxStreak r \<and> (Suc e' - s' = maxStreak r \<longrightarrow> e \<le> e')))))
   \<and> (parseDate w = isoDate \<longrightarrow>
        (adjacent w ds i \<longleftrightarrow>
           (\<exists>a. dayOfKey (ds ! (i - 1)) = Some a \<and> dayOfKey (ds ! i) = Some (a + 1))))
   \<and> (\<not> Map_has daily ''NaN-NaN-NaN'' \<longrightarrow> (\<exists>r0 n0. calculateStreaks w daily year n = Some (r0, n0)))
   \<and> (parseDate w = isoDate \<and> calculateStreaks w jan2025 2025 n = Some (r1, n1) \<longrightarrow>
        maxStreak r1 = 3 \<and> maxStreakDays r1 = [''2025-01-01'', ''2025-01-02'', ''2025-01-03''])
   \<and> (1000 \<le> year \<and> year \<le> 9999 \<and> dayOfKey k \<noteq> None \<longrightarrow>
        (starts_with k (String_int year) \<longleftrightarrow> keyYear k = year))"
proof -
  have a: "maxStreak r = 0 \<and> maxStreakDays r = []"
    if "calculateStreaks w daily year n = Some (r, n')" "activeDatesOf daily year = []"
    using that calculateStreaks_empty [OF that(2), of w n] by auto
  have b: "\<exists>s e. is_run w (activeDatesOf daily year) s e
              \<and> maxStreak r = Suc e - s
              \<and> set (maxStreakDays r) = {activeDatesOf daily year ! i | i. s \<le> i \<and> i \<le> e}
              \<and> (\<forall>s' e'. is_run w (activeDatesOf daily year) s' e' \<longrightarrow>
                    Suc e' - s' \<le> maxStreak r \<and> (Suc e' - s' = maxStreak r \<longrightarrow> e \<le> e'))"
    if c: "calculateStreaks w daily year n = Some (r, n')" and ne: "activeDatesOf daily year \<noteq> []"
  proof -
    from streaks_of_run [OF c ne] obtain s e where
      run: "is_run w (activeDatesOf daily year) s e" and mx: "maxStreak r = Suc e - s"
      and days: "maxStreakDays r = foldl (\<lambda>acc i. Set_add acc (activeDatesOf daily year ! i)) [] [s ..< e + 1]"
      and best: "\<forall>s' e'. is_run w (activeDatesOf daily year) s' e' \<longrightarrow>
                 Suc e' - s' \<le> maxStreak r \<and> (Suc e' - s' = maxStreak r \<longrightarrow> e \<le> e')"
      by blast
    have "set (maxStreakDays r) = {activeDatesOf daily year ! i | i. s \<le> i \<and> i \<le> e}"
      unfolding days foldl_Set_add_set by auto
    with run mx best show ?thesis by blast
  qed
  have c: "calculateStreaks w daily year n = Some (r, n') \<longrightarrow>
      sorted (activeDatesOf daily year)
      \<and> set (activeDatesOf daily year) = {k \<in> set (Map_keys daily). starts_with k (String_int year)}
      \<and> (activeDatesOf daily year = [] \<longrightarrow> maxStreak r = 0 \<and> maxStreakDays r = [])
      \<and> (activeDatesOf daily year \<noteq> [] \<longrightarrow>
           (\<exists>s e. is_run w (activeDatesOf daily year) s e
              \<and> maxStreak r = Suc e - s
              \<and> set (maxStreakDays r) = {activeDatesOf daily year ! i | i. s \<le> i \<and> i \<le> e}
              \<and> (\<forall>s' e'. is_run w (activeDatesOf daily year) s' e' \<longrightarrow>
                    Suc e' - s' \<le> maxStreak r \<and> (Suc e' - s' = maxStreak r \<longrightarrow> e \<le> e'))))"
    using a b activeDatesOf_sorted [of daily year] activeDatesOf_set [of daily year] by blast
  have d: "parseDate w = isoDate \<longrightarrow>
        (adjacent w ds i \<longleftrightarrow>
           (\<exists>a. dayOfKey (ds ! (i - 1)) = Some a \<and> dayOfKey (ds ! i) = Some (a + 1)))"
    by (intro impI) (rule adjacent_iso)
  have e: "\<not> Map_has daily ''NaN-NaN-NaN'' \<longrightarrow>
        (\<exists>r0 n0. calculateStreaks w daily year n = Some (r0, n0))"
    by (intro impI) (rule calculateStreaks_returns)
  have f: "parseDate w = isoDate \<and> calculateStreaks w jan2025 2025 n = Some (r1, n1) \<longrightarrow>
        maxStreak r1 = 3 \<and> maxStreakDays r1 = [''2025-01-01'', ''2025-01-02'', ''2025-01-03'']"
    by (intro impI, elim conjE) (rule jan2025_streak)
  have g: "1000 \<le> year \<and> year \<le> 9999 \<and> dayOfKey k \<noteq> None \<longrightarrow>
        (starts_with k (String_int year) \<longleftrightarrow> keyYear k = year)"
    by (intro impI, elim conjE) (rule year_prefix_iff)
  from c d e f g show ?thesis by (intro conjI)
qed

theorem maxStreak_longest_run_witness:
  "(\<exists>r n'. calculateStreaks (utcWorld 1736942400000) jan2025 2025 0 = Some (r, n')
      \<and> maxStreak r = 3 \<and> maxStreakDays r = [''2025-01-01'', ''2025-01-02'', ''2025-01-03'']
      \<and> is_run (utcWorld 1736942400000) (activeDatesOf jan2025 2025) 0 2)
   \<and> adjacent (utcWorld 1736942400000) (activeDatesOf jan2025 2025) 1
   \<and> starts_with ''2025-01-01'' (String_int 2025)"
proof -
  let ?w = "utcWorld 1736942400000"
  have h: "\<not> Map_has jan2025 ''NaN-NaN-NaN''" by code_simp
  have p: "parseDate ?w = isoDate" by (simp add: utcWorld_def)
  from maxStreak_longest_run [of ?w jan2025 2025 0] h
  obtain r n' where c: "calculateStreaks ?w jan2025 2025 0 = Some (r, n')"
    by blast
  have ne: "activeDatesOf jan2025 2025 \<noteq> []" by (simp add: jan2025_dates)
  from maxStreak_longest_run [of ?w jan2025 2025 0 r n' _ _ r n'] c p
  have v: "maxStreak r = 3 \<and> maxStreakDays r = [''2025-01-01'', ''2025-01-02'', ''2025-01-03'']"
    by blast
  from maxStreak_longest_run [of ?w jan2025 2025 0 r n'] c ne
  obtain s e where run: "is_run ?w (activeDatesOf jan2025 2025) s e"
    and mx: "maxStreak r = Suc e - s"
    by blast
  have d1: "dayOfKey (activeDatesOf jan2025 2025 ! (1 - 1)) = Some 20089"
    and d2: "dayOfKey (activeDatesOf jan2025 2025 ! 1) = Some (20089 + 1)"
    unfolding jan2025_dates by code_simp+
  from maxStreak_longest_run [of ?w jan2025 2025 0 r n' "activeDatesOf jan2025 2025" 1] p d1 d2
  have a1: "adjacent ?w (activeDatesOf jan2025 2025) 1" by blast
  have ky: "keyYear ''2025-01-01'' = 2025" by code_simp
  have dk: "dayOfKey ''2025-01-01'' \<noteq> None" by code_simp
  from maxStreak_longest_run [where year = 2025 and k = "''2025-01-01''"] ky dk
  have sw: "starts_with ''2025-01-01'' (String_int 2025)" by simp
  have "e < 4" using run by (simp add: is_run_def jan2025_dates)
  moreover have "s \<le> e" using run by (simp add: is_run_def)
  ultimately have "s = 0 \<and> e = 2 \<or> s = 1 \<and> e = 3" using mx v by auto
  moreover have na: "\<not> adjacent ?w (activeDatesOf jan2025 2025) 3"
    unfolding jan2025_dates by code_simp
  have "\<not> is_run ?w (activeDatesOf jan2025 2025) 1 3"
  proof
    assume "is_run ?w (activeDatesOf jan2025 2025) 1 3"
    then have "adjacent ?w (activeDatesOf jan2025 2025) 3"
      by (simp add: is_run_def)
    with na show False by simp
  qed
  ultimately have "is_run ?w (activeDatesOf jan2025 2025) 0 2"
    using run by auto
  with c v a1 sw show ?thesis by blast
qed

text \<open>
  Claim C10. For a map with distinct keys, \<open>maxStreak\<close> is the number of members of
  \<open>maxStreakDays\<close>. When the year has an active date, \<open>maxStreak\<close> is at least 1 and
  each member of \<open>maxStreakDays\<close> is one day after the member before it; when it has
  none, \<open>maxStreak\<close> is 0 and \<open>maxStreakDays\<close> is empty.
\<close>

theorem maxStreak_card:
  "calculateStreaks w daily year n = Some (r, n') \<and> distinct (Map_keys daily) \<longrightarrow>
     length (maxStreakDays r) = maxStreak r
     \<and> card (set (maxStreakDays r)) = maxStreak r
     \<and> (activeDatesOf daily year \<noteq> [] \<longrightarrow>
          maxStreak r \<ge> 1
          \<and> (\<forall>j. Suc j < length (maxStreakDays r) \<longrightarrow>
                diffDays w (maxStreakDays r ! j) (maxStreakDays r ! Suc j) = Some 1))
     \<and> (activeDatesOf daily year = [] \<longrightarrow> maxStreak r = 0 \<and> maxStreakDays r = [])"
proof (intro impI, elim conjE)
  assume c: "calculateStreaks w daily year n = Some (r, n')" and d: "distinct (Map_keys daily)"
  let ?ds = "activeDatesOf daily year"
  have dd: "distinct ?ds" using d by (rule activeDatesOf_distinct)
  show "length (maxStreakDays r) = maxStreak r
     \<and> card (set (maxStreakDays r)) = maxStreak r
     \<and> (?ds \<noteq> [] \<longrightarrow>
          maxStreak r \<ge> 1
          \<and> (\<forall>j. Suc j < length (maxStreakDays r) \<longrightarrow>
                diffDays w (maxStreakDays r ! j) (maxStreakDays r ! Suc j) = Some 1))
     \<and> (?ds = [] \<longrightarrow> maxStreak r = 0 \<and> maxStreakDays r = [])"
  proof (cases "?ds = []")
    case True
    from calculateStreaks_empty [OF True, of w n] c have "maxStreak r = 0" "maxStreakDays r = []"
      by auto
    with True show ?thesis by simp
  next
    case ne: False
    from streaks_of_run [OF c ne] obtain s e where
      run: "is_run w ?ds s e" and mx: "maxStreak r = Suc e - s"
      and days: "maxStreakDays r = foldl (\<lambda>acc i. Set_add acc (?ds ! i)) [] [s ..< e + 1]"
      by blast
    from run have se: "s \<le> e" "e < length ?ds" by (auto simp: is_run_def)
    have seg: "map (\<lambda>i. ?ds ! i) [s ..< e + 1] = take (Suc e - s) (drop s ?ds)"
      using nth_upt_segment [OF se(2), of s] by simp
    have "distinct (take (Suc e - s) (drop s ?ds))" using dd by simp
    then have eq: "maxStreakDays r = take (Suc e - s) (drop s ?ds)"
      unfolding days using foldl_Set_add_distinct [of "[]" "\<lambda>i. ?ds ! i" "[s ..< e + 1]"] seg by simp
    have len: "length (maxStreakDays r) = maxStreak r"
      unfolding eq mx using se by simp
    have dist: "distinct (maxStreakDays r)" unfolding eq using dd by simp
    have cons: "diffDays w (maxStreakDays r ! j) (maxStreakDays r ! Suc j) = Some 1"
      if "Suc j < length (maxStreakDays r)" for j
    proof -
      from that len mx have j: "Suc j < Suc e - s" by simp
      then have "s < s + Suc j" "s + Suc j \<le> e" by auto
      with run have "adjacent w ?ds (s + Suc j)" by (simp add: is_run_def)
      moreover have "maxStreakDays r ! j = ?ds ! (s + j)" "maxStreakDays r ! Suc j = ?ds ! (s + Suc j)"
        unfolding eq using j se by simp_all
      ultimately show ?thesis by (simp add: adjacent_def)
    qed
    show ?thesis using len dist cons ne mx se by (simp add: distinct_card)
  qed
qed

theorem maxStreak_card_witness:
  "distinct (Map_keys jan2025)
   \<and> (\<exists>r n'. calculateStreaks (utcWorld 1736942400000) jan2025 2025 0 = Some (r, n')
         \<and> length (maxStreakDays r) = maxStreak r \<and> card (set (maxStreakDays r)) = 3)"
proof -
  have d: "distinct (Map_keys jan2025)" by code_simp
  have "calculateStreaks (utcWorld 1736942400000) jan2025 2025 0
      = Some (\<lparr>maxStreak = 3, currentStreak = 0,
                maxStreakDays = [''2025-01-01'', ''2025-01-02'', ''2025-01-03'']\<rparr>, 2)"
    by code_simp
  with d maxStreak_card [of "utcWorld 1736942400000" jan2025 2025 0
      "\<lparr>maxStreak = 3, currentStreak = 0,
                maxStreakDays = [''2025-01-01'', ''2025-01-02'', ''2025-01-03'']\<rparr>" 2]
  show ?thesis by simp
qed

section \<open>Model and provider ranking\<close>




lemma set_sort_desc [simp]: "set (sort_desc key xs) = set xs"
  by (simp add: sort_desc_def)

lemma length_sort_desc [simp]: "length (sort_desc key xs) = length xs"
  by (simp add: sort_desc_def)























section \<open>The current streak\<close>









section \<open>What the calculator takes from its host\<close>

lemma localDay_tz_cong:
  assumes "tzOffset w = tzOffset w'"
  shows "localDay w t = localDay w' t"
  by (simp add: localDay_def assms)

lemma formatDateKey_tz_cong:
  assumes "tzOffset w = tzOffset w'"
  shows "formatDateKey w d = formatDateKey w' d"
  by (simp add: formatDateKey_def getFullYear_def getMonth_def getDate_def localDay_def assms)

lemma getDay_tz_cong:
  assumes "tzOffset w = tzOffset w'"
  shows "getDay w d = getDay w' d"
  by (simp add: getDay_def localDay_def assms)

lemma getFullYear_tz_cong:
  assumes "tzOffset w = tzOffset w'"
  shows "getFullYear w d = getFullYear w' d"
  by (simp add: getFullYear_def localDay_def assms)

lemma loop_tz_le:
  assumes run: "countStreakBackwards_loop w daily d s = Some k"
    and tz: "tzOffset w = tzOffset w'"
  shows "countStreakBackwards_loop w' daily d s = Some k"
proof -
  have "tzOffset w = tzOffset w' \<longrightarrow> countStreakBackwards_loop w' daily d s = Some k"
  proof (rule countStreakBackwards_loop.raw_induct
      [where P = "\<lambda>w daily d s k. tzOffset w = tzOffset w' \<longrightarrow>
          countStreakBackwards_loop w' daily d s = Some k", OF _ run], intro impI)
    fix loop :: "world \<Rightarrow> (string, int) Map \<Rightarrow> Date \<Rightarrow> nat \<Rightarrow> nat option"
      and w daily checkDate streak k
    assume IH: "\<And>w daily checkDate streak k. loop w daily checkDate streak = Some k \<Longrightarrow>
        tzOffset w = tzOffset w' \<longrightarrow> countStreakBackwards_loop w' daily checkDate streak = Some k"
      and body: "(let checkDate1 = Date_minus checkDate msPerDay
          in if Map_has daily (formatDateKey w checkDate1)
             then loop w daily checkDate1 (streak + 1) else Some streak) = Some k"
      and tz: "tzOffset w = tzOffset w'"
    note key = formatDateKey_tz_cong [OF tz]
    show "countStreakBackwards_loop w' daily checkDate streak = Some k"
    proof (cases "Map_has daily (formatDateKey w (Date_minus checkDate msPerDay))")
      case True
      with body have "loop w daily (Date_minus checkDate msPerDay) (streak + 1) = Some k"
        by (simp add: Let_def)
      from IH [OF this] tz True show ?thesis
        by (subst countStreakBackwards_loop.simps) (simp add: Let_def key [symmetric])
    next
      case False
      with body have "k = streak" by (simp add: Let_def)
      with False show ?thesis
        by (subst countStreakBackwards_loop.simps) (simp add: Let_def key [symmetric])
    qed
  qed
  with tz show ?thesis by simp
qed

lemma loop_tz_cong:
  assumes "tzOffset w = tzOffset w'"
  shows "countStreakBackwards_loop w daily d s = countStreakBackwards_loop w' daily d s"
proof (cases "countStreakBackwards_loop w daily d s")
  case (Some k)
  with loop_tz_le [OF Some assms] show ?thesis by simp
next
  case None
  show ?thesis
  proof (cases "countStreakBackwards_loop w' daily d s")
    case (Some k)
    from loop_tz_le [OF Some assms [symmetric]] None show ?thesis by simp
  next
    case n: None
    with None show ?thesis by simp
  qed
qed

lemma calculateStreaks_cong:
  assumes "tzOffset w = tzOffset w'" "parseDate w = parseDate w'"
    and "clock w n = clock w' n" "clock w (Suc n) = clock w' (Suc n)"
      "clock w (Suc (Suc n)) = clock w' (Suc (Suc n))"
  shows "calculateStreaks w daily year n = calculateStreaks w' daily year n"
  by (simp add: calculateStreaks_def Date_now_def countStreakBackwards_def Let_def assms(3,4,5)
      streak_loop_parse_cong [OF assms(2)] formatDateKey_tz_cong [OF assms(1)]
      loop_tz_cong [OF assms(1)] cong: if_cong)

lemma calculateStreaks_reads:
  "calculateStreaks w daily year n = Some (r, n') \<Longrightarrow> n' \<le> n + 3"
  by (auto simp: calculateStreaks_def Date_now_def Let_def split: if_splits prod.splits)

lemma weekdayCountsOf_cong:
  assumes "tzOffset w = tzOffset w'" "parseDate w = parseDate w'"
  shows "weekdayCountsOf w daily = weekdayCountsOf w' daily"
  unfolding weekdayCountsOf_def Date_of_string_def getDay_tz_cong [OF assms(1)] assms(2)
  by (rule refl)

lemma calculateStreaks_static:
  assumes "calculateStreaks w daily year n = Some (r, n1)"
    and "calculateStreaks w' daily year m = Some (r', n1')"
    and "parseDate w = parseDate w'"
  shows "maxStreak r = maxStreak r' \<and> maxStreakDays r = maxStreakDays r'"
proof (cases "activeDatesOf daily year = []")
  case True
  from calculateStreaks_empty [OF True, of w n] calculateStreaks_empty [OF True, of w' m] assms(1,2)
  show ?thesis by auto
next
  case False
  obtain mx tmp ts ms me where
    l: "streak_loop w (activeDatesOf daily year) 1 (1, 1, 0, 0, 0) = (mx, tmp, ts, ms, me)"
    by (metis prod_cases5)
  then have l': "streak_loop w' (activeDatesOf daily year) 1 (1, 1, 0, 0, 0) = (mx, tmp, ts, ms, me)"
    using streak_loop_parse_cong [OF assms(3)] by simp
  from calculateStreaks_max [OF assms(1) False l] calculateStreaks_max [OF assms(2) False l']
  show ?thesis by simp
qed

lemma collect_thread_tz_cong:
  assumes "tzOffset w = tzOffset w'"
  shows "collect_thread w year s f = collect_thread w' year s f"
  by (cases f)
     (simp_all add: collect_thread_def Let_def getFullYear_tz_cong [OF assms]
        formatDateKey_tz_cong [OF assms])

lemma collect_tz_cong:
  assumes "tzOffset w = tzOffset w'"
  shows "collectAmpUsageSummary w fs year = collectAmpUsageSummary w' fs year"
proof -
  have "collect_thread w year = collect_thread w' year"
    by (intro ext) (rule collect_thread_tz_cong [OF assms])
  then show ?thesis by (simp add: collectAmpUsageSummary_def)
qed

lemma calculateAmpStats_from_cong:
  assumes tz: "tzOffset w = tzOffset w'" and pd: "parseDate w = parseDate w'"
    and ck: "\<forall>i < 5. clock w i = clock w' i"
  shows "calculateAmpStats_from w s year = calculateAmpStats_from w' s year"
proof -
  have c: "clock w 0 = clock w' 0" "clock w (Suc 0) = clock w' (Suc 0)"
    "clock w (Suc (Suc 0)) = clock w' (Suc (Suc 0))"
    using ck by simp_all
  have st: "calculateStreaks w (dailyActivity s) year 0 = calculateStreaks w' (dailyActivity s) year 0"
    by (rule calculateStreaks_cong [OF tz pd c])
  have wk: "weekdayCountsOf w (dailyActivity s) = weekdayCountsOf w' (dailyActivity s)"
    by (rule weekdayCountsOf_cong [OF tz pd])
  have dn: "Date_now w n = Date_now w' n" if "n \<le> 4" for n
    using ck that by (simp add: Date_now_def)
  show ?thesis
  proof (cases "calculateStreaks w' (dailyActivity s) year 0")
    case None
    then show ?thesis by (simp add: calculateAmpStats_from_def st)
  next
    case (Some a)
    obtain r n1 where a: "a = (r, n1)" by (cases a)
    from calculateStreaks_reads [of w' "dailyActivity s" year 0 r n1] Some a have n1: "n1 \<le> 3" by simp
    have d1: "Date_now w n1 = Date_now w' n1" using dn [of n1] n1 by simp
    have d2: "Date_now w (Suc n1) = Date_now w' (Suc n1)" using dn [of "Suc n1"] n1 by simp
    show ?thesis
      by (simp add: calculateAmpStats_from_def st wk Some a d1 d2 Let_def Date_now_def [of w' n1]
          split: option.splits prod.splits)
  qed
qed

lemma calculateAmpStats_from_static:
  assumes tz: "tzOffset w = tzOffset w'" and pd: "parseDate w = parseDate w'"
    and r: "calculateAmpStats_from w s year = Some r"
    and r': "calculateAmpStats_from w' s year = Some r'"
  shows "r\<lparr>currentStreak := c, firstSessionDate := f, daysSinceFirstSession := d\<rparr>
       = r'\<lparr>currentStreak := c, firstSessionDate := f, daysSinceFirstSession := d\<rparr>"
proof -
  have wk: "weekdayCountsOf w (dailyActivity s) = weekdayCountsOf w' (dailyActivity s)"
    by (rule weekdayCountsOf_cong [OF tz pd])
  from r obtain st n1 where st: "calculateStreaks w (dailyActivity s) year 0 = Some (st, n1)"
    by (auto simp: calculateAmpStats_from_def Let_def split: option.splits)
  from r' obtain st' n1' where st': "calculateStreaks w' (dailyActivity s) year 0 = Some (st', n1')"
    by (auto simp: calculateAmpStats_from_def Let_def split: option.splits)
  from calculateStreaks_static [OF st st' pd]
  have mx: "maxStreak st = maxStreak st'" "maxStreakDays st = maxStreakDays st'" by simp_all
  show ?thesis
    using r r'
    by (auto simp: calculateAmpStats_from_def Let_def st st' mx wk split: option.splits prod.splits)
qed

text \<open>
  Claim C1, amended. The result of the calculator is determined by the summary, the year,
  the host's offset to UTC and date parser, and the first five readings of the clock; so
  is the result of \<open>calculateAmpStats\<close> by the thread files in place of the summary. For
  two hosts that differ in their clocks only, the results agree in every field but
  \<open>currentStreak\<close>, \<open>firstSessionDate\<close> and \<open>daysSinceFirstSession\<close>. The collector
  does not read the clock.
\<close>

theorem calculator_reads_clock:
  "(tzOffset w = tzOffset w' \<and> parseDate w = parseDate w' \<and> (\<forall>i < 5. clock w i = clock w' i) \<longrightarrow>
      calculateAmpStats_from w s year = calculateAmpStats_from w' s year
      \<and> calculateAmpStats w fs year = calculateAmpStats w' fs year)
   \<and> (tzOffset w = tzOffset w' \<and> parseDate w = parseDate w'
        \<and> calculateAmpStats_from w s year = Some r \<and> calculateAmpStats_from w' s year = Some r' \<longrightarrow>
      r\<lparr>currentStreak := c, firstSessionDate := f, daysSinceFirstSession := d\<rparr>
        = r'\<lparr>currentStreak := c, firstSessionDate := f, daysSinceFirstSession := d\<rparr>)
   \<and> (tzOffset w = tzOffset w' \<longrightarrow>
        collectAmpUsageSummary w fs year = collectAmpUsageSummary w' fs year)"
proof -
  have "calculateAmpStats w fs year = calculateAmpStats w' fs year"
    if "tzOffset w = tzOffset w'" "parseDate w = parseDate w'" "\<forall>i < 5. clock w i = clock w' i"
    using calculateAmpStats_from_cong [OF that] collect_tz_cong [OF that(1)]
    by (simp add: calculateAmpStats_def)
  then show ?thesis
    using calculateAmpStats_from_cong [of w w' s year] calculateAmpStats_from_static [where w = w and w' = w' and s = s and year = year and r = r
        and r' = r' and c = c and f = f and d = d]
      collect_tz_cong [of w w' fs year]
    by blast
qed

text \<open>
  The claim as stated fails: for the same summary and year, a clock at noon of 1 January
  2025 and one at noon of 15 January 2025 give different current streaks and different
  days since the first session.
\<close>

theorem calculator_reads_clock_counterexample:
  "tzOffset (utcWorld 1735732800000) = tzOffset (utcWorld 1736942400000)
   \<and> parseDate (utcWorld 1735732800000) = parseDate (utcWorld 1736942400000)
   \<and> map_option currentStreak (calculateAmpStats_from (utcWorld 1735732800000) oneDay 2025) = Some 1
   \<and> map_option currentStreak (calculateAmpStats_from (utcWorld 1736942400000) oneDay 2025) = Some 0
   \<and> map_option daysSinceFirstSession (calculateAmpStats_from (utcWorld 1735732800000) oneDay 2025)
       = Some (Some 0)
   \<and> map_option daysSinceFirstSession (calculateAmpStats_from (utcWorld 1736942400000) oneDay 2025)
       = Some (Some 14)"
proof -
  have "tzOffset (utcWorld 1735732800000) = tzOffset (utcWorld 1736942400000)"
    "parseDate (utcWorld 1735732800000) = parseDate (utcWorld 1736942400000)"
    by (simp_all add: utcWorld_def)
  moreover have "map_option currentStreak (calculateAmpStats_from (utcWorld 1735732800000) oneDay 2025) = Some 1"
    by code_simp
  moreover have "map_option currentStreak (calculateAmpStats_from (utcWorld 1736942400000) oneDay 2025) = Some 0"
    by code_simp
  moreover have "map_option daysSinceFirstSession (calculateAmpStats_from (utcWorld 1735732800000) oneDay 2025)
       = Some (Some 0)"
    by code_simp
  moreover have "map_option daysSinceFirstSession (calculateAmpStats_from (utcWorld 1736942400000) oneDay 2025)
       = Some (Some 14)"
    by code_simp
  ultimately show ?thesis by blast
qed

theorem calculator_reads_clock_witness:
  "calculateAmpStats_from (utcWorld 1735732800000) oneDay 2025
     = calculateAmpStats_from ((utcWorld 1735732800000)\<lparr>clock := (\<lambda>i. if i < 5 then 1735732800000 else 0)\<rparr>) oneDay 2025
   \<and> maxStreak (the (calculateAmpStats_from (utcWorld 1735732800000) oneDay 2025))
     = maxStreak (the (calculateAmpStats_from (utcWorld 1736942400000) oneDay 2025))
   \<and> collectAmpUsageSummary (utcWorld 1735732800000) exampleThreads 2025
     = collectAmpUsageSummary (utcWorld 1736942400000) exampleThreads 2025"
proof -
  let ?w = "utcWorld 1735732800000"
  let ?w1 = "?w\<lparr>clock := (\<lambda>i. if i < 5 then 1735732800000 else 0)\<rparr>"
  let ?w2 = "utcWorld 1736942400000"
  have a: "tzOffset ?w = tzOffset ?w1 \<and> parseDate ?w = parseDate ?w1 \<and> (\<forall>i < 5. clock ?w i = clock ?w1 i)"
    by (simp add: utcWorld_def)
  have b: "tzOffset ?w = tzOffset ?w2 \<and> parseDate ?w = parseDate ?w2" by (simp add: utcWorld_def)
  have e: "calculateAmpStats_from ?w oneDay 2025 = Some (the (calculateAmpStats_from ?w oneDay 2025))"
    by code_simp
  have e2: "calculateAmpStats_from ?w2 oneDay 2025 = Some (the (calculateAmpStats_from ?w2 oneDay 2025))"
    by code_simp
  from calculator_reads_clock [where w = ?w and w' = ?w1 and s = oneDay and year = 2025
      and fs = exampleThreads] a
  have 1: "calculateAmpStats_from ?w oneDay 2025 = calculateAmpStats_from ?w1 oneDay 2025" by blast
  from calculator_reads_clock [where w = ?w and w' = ?w2 and s = oneDay and year = 2025
      and fs = exampleThreads and r = "the (calculateAmpStats_from ?w oneDay 2025)"
      and r' = "the (calculateAmpStats_from ?w2 oneDay 2025)" and c = 0 and f = None and d = None]
    b e e2
  have 2: "(the (calculateAmpStats_from ?w oneDay 2025))
              \<lparr>currentStreak := 0, firstSessionDate := None, daysSinceFirstSession := None\<rparr>
         = (the (calculateAmpStats_from ?w2 oneDay 2025))
              \<lparr>currentStreak := 0, firstSessionDate := None, daysSinceFirstSession := None\<rparr>"
    and 3: "collectAmpUsageSummary ?w exampleThreads 2025 = collectAmpUsageSummary ?w2 exampleThreads 2025"
    by blast+
  from 2 have "maxStreak ((the (calculateAmpStats_from ?w oneDay 2025))
              \<lparr>currentStreak := 0, firstSessionDate := None, daysSinceFirstSession := None\<rparr>)
         = maxStreak ((the (calculateAmpStats_from ?w2 oneDay 2025))
              \<lparr>currentStreak := 0, firstSessionDate := None, daysSinceFirstSession := None\<rparr>)"
    by (rule arg_cong)
  then have 4: "maxStreak (the (calculateAmpStats_from ?w oneDay 2025))
     = maxStreak (the (calculateAmpStats_from ?w2 oneDay 2025))" by simp
  show ?thesis using 1 3 4 by blast
qed

end
